theory Spec2Isabelle
  imports Main "HOL-Library.Word"
begin

section \<open>Characters and strings\<close>

text \<open>
  A \<open>std::string\<close> is a list of bytes. \<open>std::tolower\<close> is applied per byte in the
  default "C" locale (the program never changes the locale): it maps \<open>A..Z\<close> to \<open>a..z\<close>
  and leaves every other byte alone.
\<close>

definition tolower_char :: "char \<Rightarrow> char" where
  "tolower_char c =
     (case map_of (zip ''ABCDEFGHIJKLMNOPQRSTUVWXYZ'' ''abcdefghijklmnopqrstuvwxyz'') c of
        Some d \<Rightarrow> d
      | None \<Rightarrow> c)"

definition to_lower :: "string \<Rightarrow> string" where
  "to_lower v = map tolower_char v"

text \<open>\<open>s.rfind(p, 0) == 0\<close>: the string \<open>s\<close> starts with \<open>p\<close>.\<close>

definition starts_with :: "string \<Rightarrow> string \<Rightarrow> bool" where
  "starts_with p s = (take (length p) s = p)"

text \<open>\<open>s.find(sub) != npos\<close>: \<open>sub\<close> occurs somewhere in \<open>s\<close>.\<close>

fun contains :: "string \<Rightarrow> string \<Rightarrow> bool" where
  "contains sub [] = (sub = [])"
| "contains sub (c # cs) = (starts_with sub (c # cs) \<or> contains sub cs)"

definition is_trim_space :: "char \<Rightarrow> bool" where
  "is_trim_space c = (c \<in> set [CHR '' '', CHR 0x09, CHR 0x0A, CHR 0x0D])"

text \<open>
  \<open>trim\<close>: from the first to the last byte outside \<open>" \t\n\r"\<close>; the empty string
  when there is no such byte.
\<close>

definition trim :: "string \<Rightarrow> string" where
  "trim input = rev (dropWhile is_trim_space (rev (dropWhile is_trim_space input)))"

section \<open>URL utilities\<close>

record UrlParts =
  scheme :: string
  host :: string
  path :: string

definition is_alpha :: "char \<Rightarrow> bool" where
  "is_alpha c =
     (c \<in> set ''abcdefghijklmnopqrstuvwxyzABCDEFGHIJKLMNOPQRSTUVWXYZ'')"

definition is_digit :: "char \<Rightarrow> bool" where
  "is_digit c = (c \<in> set ''0123456789'')"

definition is_scheme_char :: "char \<Rightarrow> bool" where
  "is_scheme_char c = (is_alpha c \<or> is_digit c \<or> c \<in> set ''+.-'')"

text \<open>
  The regular expression's \<open>.\<close> (ECMAScript grammar) matches every byte except the line
  terminators LF and CR.
\<close>

definition dot_matches :: "char \<Rightarrow> bool" where
  "dot_matches c = (c \<noteq> CHR 0x0A \<and> c \<noteq> CHR 0x0D)"

text \<open>
  \<open>parse_url\<close> is a full match against
  \<^verbatim>\<open>^([a-zA-Z][a-zA-Z0-9+.-]*)://([^/]+)(/.*)?$\<close>.
  Every repetition is followed by a byte outside its class (or by the end), so the match
  is deterministic: the scheme is the longest run of scheme bytes, the host the longest
  run of bytes other than \<open>/\<close>, and the path, when present, is the whole rest.
\<close>

definition parse_url :: "string \<Rightarrow> UrlParts option" where
  "parse_url url =
     (case url of
        [] \<Rightarrow> None
      | c # cs \<Rightarrow>
          if \<not> is_alpha c then None
          else
            let sch = c # takeWhile is_scheme_char cs;
                after = dropWhile is_scheme_char cs
            in if \<not> starts_with ''://'' after then None
               else
                 let hp = drop 3 after;
                     h = takeWhile (\<lambda>x. x \<noteq> CHR ''/'') hp;
                     p = dropWhile (\<lambda>x. x \<noteq> CHR ''/'') hp
                 in if h = [] then None
                    else if p = [] then
                      Some \<lparr>scheme = to_lower sch, host = to_lower h, path = ''/''\<rparr>
                    else if list_all dot_matches (tl p) then
                      Some \<lparr>scheme = to_lower sch, host = to_lower h, path = p\<rparr>
                    else None)"

definition strip_fragment :: "string \<Rightarrow> string" where
  "strip_fragment url = takeWhile (\<lambda>c. c \<noteq> CHR ''#'') url"

text \<open>
  The directory of a path: everything up to and including the last \<open>/\<close>, and \<open>/\<close>
  when the path has no slash.
\<close>

definition directory_of :: "string \<Rightarrow> string" where
  "directory_of base_path =
     (if CHR ''/'' \<in> set base_path
      then rev (dropWhile (\<lambda>c. c \<noteq> CHR ''/'') (rev base_path))
      else ''/'')"

definition make_absolute :: "string \<Rightarrow> string \<Rightarrow> string" where
  "make_absolute base_url href =
     (let link = trim href in
      if link = [] then []
      else if starts_with ''mailto:'' link \<or> starts_with ''javascript:'' link then []
      else if starts_with ''http://'' link \<or> starts_with ''https://'' link
        then strip_fragment link
      else if starts_with ''//'' link then
        (case parse_url base_url of
           None \<Rightarrow> []
         | Some base_parts \<Rightarrow> scheme base_parts @ '':'' @ strip_fragment link)
      else
        (case parse_url base_url of
           None \<Rightarrow> []
         | Some base_parts \<Rightarrow>
             let base_path =
                   (if hd link = CHR ''/'' then link
                    else directory_of (path base_parts) @ link)
             in scheme base_parts @ ''://'' @ host base_parts @ base_path))"

definition extension_from_url :: "string \<Rightarrow> string" where
  "extension_from_url url =
     (let clean = takeWhile (\<lambda>c. c \<noteq> CHR ''?'') (strip_fragment url);
          filename = rev (takeWhile (\<lambda>c. c \<noteq> CHR ''/'') (rev clean))
      in if CHR ''.'' \<notin> set filename then []
         else to_lower (CHR ''.'' # rev (takeWhile (\<lambda>c. c \<noteq> CHR ''.'') (rev filename))))"

definition query_indicates_download :: "string \<Rightarrow> bool" where
  "query_indicates_download url =
     (let lower = to_lower url in
      if contains ''format=pdf'' lower then True
      else if contains ''format=doc'' lower then True
      else if contains ''download=1'' lower then True
      else False)"

section \<open>Configuration and filtering\<close>

text \<open>
  The fields of \<open>Config\<close> that the crawl engine reads. \<open>max_pages\<close> is a \<open>long\<close> and
  \<open>threads\<close> an \<open>int\<close>; both are read as signed values. The two durations only set the
  sleep and the transfer timeout and are left out.
\<close>

record Config =
  start_url :: string
  allowed_domains :: "string list"
  raw_output :: string
  max_pages :: "64 word"
  threads :: "32 word"
  allowed_extensions :: "string set"

definition is_allowed_domain :: "Config \<Rightarrow> string \<Rightarrow> bool" where
  "is_allowed_domain cfg url =
     (case parse_url url of
        None \<Rightarrow> False
      | Some parts \<Rightarrow> list_ex (\<lambda>domain. host parts = to_lower domain) (allowed_domains cfg))"

definition should_enqueue :: "Config \<Rightarrow> string \<Rightarrow> bool" where
  "should_enqueue cfg url =
     (let normalized = strip_fragment url in
      if normalized = [] then False
      else if \<not> is_allowed_domain cfg normalized then False
      else
        let ext = extension_from_url normalized in
        if ext \<noteq> [] then
          (if ext \<notin> allowed_extensions cfg then False else True)
        else if \<not> query_indicates_download normalized then True
        else True)"

text \<open>The member initialisers of \<open>struct Config\<close>.\<close>

definition default_config :: Config where
  "default_config =
     \<lparr>start_url = ''https://www.bgsu.edu'',
      allowed_domains = [''www.bgsu.edu'', ''bgsu.edu''],
      raw_output = ''data/raw'',
      max_pages = - 1,
      threads = 8,
      allowed_extensions =
        {''.html'', ''.htm'', ''.php'', ''.asp'', ''.aspx'', ''.jsp'',
         ''.pdf'', ''.txt'', ''.json'', ''.csv'', ''.xml'',
         ''.doc'', ''.docx'', ''.ppt'', ''.pptx'', ''.xls'', ''.xlsx'',
         ''.rtf'', ''.srt'', ''.vtt'', ''.jpg'', ''.jpeg'', ''.png'',
         ''.gif'', ''.svg'', ''.zip'', ''.tar'', ''.gz'', ''.mp3'',
         ''.mp4''}\<rparr>"

section \<open>Store: file names\<close>

definition is_filename_char :: "char \<Rightarrow> bool" where
  "is_filename_char c = (is_alpha c \<or> is_digit c \<or> c \<in> set ''._-'')"

text \<open>
  \<open>std::regex_replace(file_name, [^A-Za-z0-9._-]+, "_")\<close>: every maximal run of bytes
  outside the class becomes one underscore. The flag says that the previous byte
  belonged to such a run.
\<close>

fun collapse_invalid :: "bool \<Rightarrow> string \<Rightarrow> string" where
  "collapse_invalid in_run [] = []"
| "collapse_invalid in_run (c # cs) =
     (if is_filename_char c then c # collapse_invalid False cs
      else if in_run then collapse_invalid True cs
      else CHR ''_'' # collapse_invalid True cs)"

definition sanitize_filename :: "UrlParts \<Rightarrow> string \<Rightarrow> string \<Rightarrow> string" where
  "sanitize_filename parts extension pref =
     (let p = (if path parts = [] \<or> path parts = ''/'' then ''/index'' else path parts);
          safe = map (\<lambda>c. if c = CHR ''/'' then CHR ''_'' else c) p;
          file_name = pref @ ''__'' @ host parts @ safe;
          file_name = (if extension \<noteq> [] \<and> \<not> contains extension file_name
                       then file_name @ extension else file_name);
          file_name = collapse_invalid False file_name
      in take 240 file_name)"

text \<open>
  A \<open>std::filesystem::path\<close> is kept as the expression that builds it: the path made
  from a string, and \<open>dir / name\<close>. How \<open>operator/\<close> and \<open>generic_string\<close> print such a
  path (where a separator goes, what becomes of a trailing or a repeated slash of the
  directory) is the library's business and is not modelled: a ledger row and a file
  write hold the path itself. The two output directories are \<open>raw_output / "html"\<close> and
  \<open>raw_output / "files"\<close>.
\<close>

datatype fs_path = Path string | Join fs_path string

definition html_dir :: "Config \<Rightarrow> fs_path" where
  "html_dir cfg = Join (Path (raw_output cfg)) ''html''"

definition files_dir :: "Config \<Rightarrow> fs_path" where
  "files_dir cfg = Join (Path (raw_output cfg)) ''files''"

definition is_html_type :: "string \<Rightarrow> bool" where
  "is_html_type content_type = (contains ''text/html'' content_type \<or> content_type = [])"

definition saved_path :: "Config \<Rightarrow> string \<Rightarrow> bool \<Rightarrow> UrlParts \<Rightarrow> fs_path" where
  "saved_path cfg url is_html parts =
     (if is_html then Join (html_dir cfg) (sanitize_filename parts ''.html'' ''html'')
      else
        let ext = extension_from_url url;
            ext = (if ext = [] then ''.bin'' else ext)
        in Join (files_dir cfg) (sanitize_filename parts ext ''file''))"

section \<open>Fetcher\<close>

record FetchResult =
  body :: string
  content_type :: string

text \<open>
  \<open>header_callback\<close> receives one header line and the content type stored so far and
  returns the content type stored afterwards.
\<close>

definition header_callback :: "string \<Rightarrow> string \<Rightarrow> string" where
  "header_callback header stored =
     (if starts_with ''content-type:'' (to_lower header) then
        (case dropWhile (\<lambda>c. c \<noteq> CHR '':'') header of
           [] \<Rightarrow> stored
         | colon # v \<Rightarrow> trim v)
      else stored)"

text \<open>
  What libcurl hands to \<open>fetch_url\<close>: either \<open>curl_easy_init\<close> fails, or
  \<open>curl_easy_perform\<close> runs. A transfer is described by its return code (\<open>0\<close> is
  \<open>CURLE_OK\<close>), the text \<open>curl_easy_strerror\<close> gives for that code, the HTTP status of
  the final response, the header lines passed to \<open>header_callback\<close> and the data passed
  to \<open>write_callback\<close>, both in order. \<open>CURLOPT_FAILONERROR\<close> is not set, so a response
  with status 404 is a transfer with code \<open>CURLE_OK\<close> whose data is the error page.
\<close>

record Transfer =
  curl_code :: nat
  error_text :: string
  status :: nat
  header_lines :: "string list"
  chunks :: "string list"

datatype Outcome = InitFailed | Performed Transfer

text \<open>\<open>fetch_url\<close> returns the result and the lines it wrote to standard error.\<close>

fun fetch_url :: "string \<Rightarrow> Outcome \<Rightarrow> FetchResult \<times> string list" where
  "fetch_url url InitFailed = (\<lparr>body = [], content_type = []\<rparr>, [])"
| "fetch_url url (Performed tr) =
     (let result = \<lparr>body = concat (chunks tr),
                    content_type = foldl (\<lambda>stored h. header_callback h stored) [] (header_lines tr)\<rparr>
      in if curl_code tr \<noteq> 0
         then (result\<lparr>body := []\<rparr>,
               [''Failed to fetch '' @ url @ '': '' @ error_text tr @ [CHR 0x0A]])
         else (result, []))"

section \<open>Link extraction\<close>

definition is_regex_space :: "char \<Rightarrow> bool" where
  "is_regex_space c =
     (c \<in> set [CHR '' '', CHR 0x09, CHR 0x0A, CHR 0x0B, CHR 0x0C, CHR 0x0D])"

definition is_quote :: "char \<Rightarrow> bool" where
  "is_quote c = (c = CHR 0x27 \<or> c = CHR 0x22)"

text \<open>
  One attempt to match \<^verbatim>\<open>href\s*=\s*['"]([^'"]+)['"]\<close> (case-insensitive) at the
  start of a string: the captured group and the length of the match. Each repetition is
  followed by a byte outside its class, so there is no choice to backtrack over.
\<close>

definition match_href_at :: "string \<Rightarrow> (string \<times> nat) option" where
  "match_href_at s =
     (if to_lower (take 4 s) \<noteq> ''href'' then None
      else
        case dropWhile is_regex_space (drop 4 s) of
          [] \<Rightarrow> None
        | c1 # r1 \<Rightarrow>
            if c1 \<noteq> CHR ''='' then None
            else
              case dropWhile is_regex_space r1 of
                [] \<Rightarrow> None
              | q # r2 \<Rightarrow>
                  if \<not> is_quote q then None
                  else
                    let v = takeWhile (\<lambda>c. \<not> is_quote c) r2;
                        r3 = dropWhile (\<lambda>c. \<not> is_quote c) r2
                    in if v = [] \<or> r3 = [] then None
                       else Some (v, length s - length r3 + 1))"

text \<open>
  The \<open>sregex_iterator\<close>: the leftmost match, then the next one after its end. \<open>skip\<close>
  counts the bytes of the last match still to pass.
\<close>

fun href_matches :: "nat \<Rightarrow> string \<Rightarrow> string list" where
  "href_matches skip [] = []"
| "href_matches skip (c # cs) =
     (if 0 < skip then href_matches (skip - 1) cs
      else
        case match_href_at (c # cs) of
          Some (v, n) \<Rightarrow> v # href_matches (n - 1) cs
        | None \<Rightarrow> href_matches 0 cs)"

definition extract_links :: "string \<Rightarrow> string \<Rightarrow> string list" where
  "extract_links html base_url =
     filter (\<lambda>absolute. absolute \<noteq> []) (map (make_absolute base_url) (href_matches 0 html))"

section \<open>The crawler and its workers\<close>

text \<open>
  The position of one worker inside the loop of \<open>run\<close>, with the values of the local
  variables that are live there. Every shared object is either guarded by a mutex or
  atomic, so an execution is an interleaving of the following steps: one access to an
  atomic variable, or the part of a critical section that touches only the data of the
  mutex taken. A position after a lock has been taken and before it is released holds
  that lock.

  \<^item> \<open>Top\<close>: line 379, about to load \<open>stop\<close>.
  \<^item> \<open>LockQ\<close>: line 384, about to take \<open>queue_mutex_\<close> and look at the frontier.
  \<^item> \<open>Popped url\<close>: line 388, the front of the frontier has been popped; about to add
    one to \<open>active_workers_\<close> and leave the block. Holds \<open>queue_mutex_\<close>.
  \<^item> \<open>EmptyQ\<close>: line 390, the frontier was empty; about to load \<open>active_workers_\<close>.
    Holds \<open>queue_mutex_\<close>.
  \<^item> \<open>SetStopIdle\<close>: line 391, about to store \<open>stop\<close> and break. Holds \<open>queue_mutex_\<close>.
  \<^item> \<open>MarkVisited url\<close>: line 398, about to run \<open>mark_visited\<close>.
  \<^item> \<open>DecActive keep_running\<close>: lines 399 and 404, about to run the \<open>fetch_sub\<close> of
    \<open>decrement_active\<close>; \<open>keep_running\<close> is true on the path of line 399, which continues.
  \<^item> \<open>Clamp keep_running\<close>: line 428, about to store 0 in \<open>active_workers_\<close>.
  \<^item> \<open>SetStopLimit\<close>: line 406, about to store \<open>stop\<close> and break.
  \<^item> \<open>CheckLimit url\<close>: line 433, entering \<open>process_url\<close>.
  \<^item> \<open>Fetch url\<close>: line 437.
  \<^item> \<open>WriteFile\<close>: lines 449 to 462, with the body, the lowered content type,
    \<open>is_html\<close> and the parsed URL.
  \<^item> \<open>WriteMeta\<close>: lines 464 to 468, with the path of the saved file.
  \<^item> \<open>IncPages\<close>: line 470.
  \<^item> \<open>Links current links\<close>: lines 473 to 487, the links still to offer; inside
    \<open>enqueue_url\<close> up to the insertion into \<open>queued_\<close>.
  \<^item> \<open>EnqPush current normalized links\<close>: line 537, inside \<open>enqueue_url\<close>, about to take
    \<open>queue_mutex_\<close> and push. Holds \<open>visited_mutex_\<close>.
  \<^item> \<open>Done\<close>: the worker has left the loop.
\<close>

datatype pc =
    Top
  | LockQ
  | Popped string
  | EmptyQ
  | SetStopIdle
  | MarkVisited string
  | DecActive bool
  | Clamp bool
  | SetStopLimit
  | CheckLimit string
  | Fetch string
  | WriteFile string string string bool UrlParts
  | WriteMeta string string string bool fs_path
  | IncPages string string bool
  | Links "64 word" "string list"
  | EnqPush "64 word" string "string list"
  | Done

text \<open>
  The members of \<open>ParallelCrawler\<close>, the flag \<open>stop\<close> of \<open>run\<close>, and the outside world
  the crawler writes to: the rows of the metadata ledger after its header (those it had
  before the run, then those the run appends), the files written (before the run, then
  by it), and the lines sent to standard error. The two counters are
  \<open>std::atomic<long>\<close>, 64 bits wide, and wrap around.
\<close>

record Crawler =
  frontier :: "string list"
  visited :: "string set"
  queued :: "string set"
  pages_downloaded :: "64 word"
  active_workers :: "64 word"
  stop :: bool
  ledger :: "(string \<times> fs_path \<times> string) list"
  files :: "(fs_path \<times> string) list"
  errlog :: "string list"
  pcs :: "pc list"

fun holds_queue_mutex :: "pc \<Rightarrow> bool" where
  "holds_queue_mutex (Popped url) = True"
| "holds_queue_mutex EmptyQ = True"
| "holds_queue_mutex SetStopIdle = True"
| "holds_queue_mutex p = False"

fun holds_visited_mutex :: "pc \<Rightarrow> bool" where
  "holds_visited_mutex (EnqPush current normalized links) = True"
| "holds_visited_mutex p = False"

definition queue_mutex_free :: "Crawler \<Rightarrow> bool" where
  "queue_mutex_free s = (\<not> list_ex holds_queue_mutex (pcs s))"

definition visited_mutex_free :: "Crawler \<Rightarrow> bool" where
  "visited_mutex_free s = (\<not> list_ex holds_visited_mutex (pcs s))"

definition goto :: "Crawler \<Rightarrow> nat \<Rightarrow> pc \<Rightarrow> Crawler" where
  "goto s t p = s\<lparr>pcs := (pcs s)[t := p]\<rparr>"

text \<open>
  Lines 524 to 530 of \<open>enqueue_url\<close>: the normalised URL, or \<open>None\<close> when the function
  returns before it takes a lock.
\<close>

definition enqueue_candidate :: "Config \<Rightarrow> string \<Rightarrow> string option" where
  "enqueue_candidate cfg url =
     (let normalized = strip_fragment url in
      if normalized = [] then None
      else if \<not> is_allowed_domain cfg normalized then None
      else Some normalized)"

text \<open>\<open>max_pages >= 0 && count >= max_pages\<close>, on signed 64-bit values.\<close>

definition limit_reached :: "Config \<Rightarrow> 64 word \<Rightarrow> bool" where
  "limit_reached cfg n = (0 \<le> sint (max_pages cfg) \<and> sint (max_pages cfg) \<le> sint n)"

text \<open>
  One step of worker \<open>t\<close> at position \<open>p\<close>. \<open>ev\<close> is what libcurl does if the step is
  the fetch. The result is \<open>None\<close> when the step has to wait for a mutex, and when the
  worker has finished.
\<close>

fun thread_step :: "Config \<Rightarrow> Outcome \<Rightarrow> Crawler \<Rightarrow> nat \<Rightarrow> pc \<Rightarrow> Crawler option" where
  "thread_step cfg ev s t Top = Some (goto s t (if stop s then Done else LockQ))"
| "thread_step cfg ev s t LockQ =
     (if \<not> queue_mutex_free s then None
      else
        case frontier s of
          [] \<Rightarrow> Some (goto s t EmptyQ)
        | url # rest \<Rightarrow> Some (goto (s\<lparr>frontier := rest\<rparr>) t (Popped url)))"
| "thread_step cfg ev s t (Popped url) =
     Some (goto (s\<lparr>active_workers := active_workers s + 1\<rparr>) t (MarkVisited url))"
| "thread_step cfg ev s t EmptyQ =
     Some (goto s t (if active_workers s = 0 then SetStopIdle else Top))"
| "thread_step cfg ev s t SetStopIdle = Some (goto (s\<lparr>stop := True\<rparr>) t Done)"
| "thread_step cfg ev s t (MarkVisited url) =
     (if \<not> visited_mutex_free s then None
      else if url \<notin> visited s then
        Some (goto (s\<lparr>visited := insert url (visited s), queued := queued s - {url}\<rparr>) t
                (CheckLimit url))
      else Some (goto s t (DecActive True)))"
| "thread_step cfg ev s t (DecActive keep_running) =
     (let remaining = active_workers s - 1 in
      Some (goto (s\<lparr>active_workers := remaining\<rparr>) t
              (if sint remaining < 0 then Clamp keep_running
               else if keep_running then Top
               else SetStopLimit)))"
| "thread_step cfg ev s t (Clamp keep_running) =
     Some (goto (s\<lparr>active_workers := 0\<rparr>) t (if keep_running then Top else SetStopLimit))"
| "thread_step cfg ev s t SetStopLimit = Some (goto (s\<lparr>stop := True\<rparr>) t Done)"
| "thread_step cfg ev s t (CheckLimit url) =
     Some (goto s t (if limit_reached cfg (pages_downloaded s) then DecActive False
                     else Fetch url))"
| "thread_step cfg ev s t (Fetch url) =
     (let result = fst (fetch_url url ev);
          s1 = s\<lparr>errlog := errlog s @ snd (fetch_url url ev)\<rparr>
      in if body result = [] then Some (goto s1 t (DecActive True))
         else
           let lowered = to_lower (content_type result);
               is_html = is_html_type lowered
           in case parse_url url of
                None \<Rightarrow> Some (goto s1 t (DecActive True))
              | Some parts \<Rightarrow>
                  Some (goto s1 t (WriteFile url (body result) lowered is_html parts)))"
| "thread_step cfg ev s t (WriteFile url content lowered is_html parts) =
     (let file = saved_path cfg url is_html parts in
      Some (goto (s\<lparr>files := files s @ [(file, content)]\<rparr>) t
              (WriteMeta url content lowered is_html file)))"
| "thread_step cfg ev s t (WriteMeta url content lowered is_html file) =
     Some (goto (s\<lparr>ledger := ledger s @ [(url, file, if lowered = [] then [] else lowered)]\<rparr>) t
             (IncPages url content is_html))"
| "thread_step cfg ev s t (IncPages url content is_html) =
     (let current = pages_downloaded s + 1 in
      Some (goto (s\<lparr>pages_downloaded := current\<rparr>) t
              (Links current (if is_html then extract_links content url else []))))"
| "thread_step cfg ev s t (Links current links) =
     (case links of
        [] \<Rightarrow> Some (goto s t (DecActive (\<not> limit_reached cfg current)))
      | link # rest \<Rightarrow>
          if \<not> should_enqueue cfg link then Some (goto s t (Links current rest))
          else
            case enqueue_candidate cfg link of
              None \<Rightarrow> Some (goto s t (Links current rest))
            | Some normalized \<Rightarrow>
                if \<not> visited_mutex_free s then None
                else if normalized \<in> visited s \<or> normalized \<in> queued s then
                  Some (goto s t (Links current rest))
                else
                  Some (goto (s\<lparr>queued := insert normalized (queued s)\<rparr>) t
                          (EnqPush current normalized rest)))"
| "thread_step cfg ev s t (EnqPush current normalized rest) =
     (if \<not> queue_mutex_free s then None
      else Some (goto (s\<lparr>frontier := frontier s @ [normalized]\<rparr>) t (Links current rest)))"
| "thread_step cfg ev s t Done = None"

definition step :: "Config \<Rightarrow> nat \<Rightarrow> Outcome \<Rightarrow> Crawler \<Rightarrow> Crawler option" where
  "step cfg t ev s = (if t < length (pcs s) then thread_step cfg ev s t (pcs s ! t) else None)"

text \<open>
  The state when the parallel region begins: \<open>enqueue_url(start_url)\<close> has run to its
  end on the main thread, and the team has \<open>threads\<close> workers at the top of the loop.
  The constructor keeps a metadata ledger that exists already (it writes the header
  only when there is none) and every row is appended, and the output directories may
  hold files of an earlier run: \<open>rows\<close> are the rows the ledger has before the run, and
  \<open>stored\<close> the files written before it. The frontier, the two sets and the counters
  always start empty.
\<close>

definition init_state ::
  "Config \<Rightarrow> (string \<times> fs_path \<times> string) list \<Rightarrow> (fs_path \<times> string) list \<Rightarrow> Crawler" where
  "init_state cfg rows stored =
     (let seeds = (case enqueue_candidate cfg (start_url cfg) of
                     None \<Rightarrow> []
                   | Some normalized \<Rightarrow> [normalized])
      in \<lparr>frontier = seeds, visited = {}, queued = set seeds,
          pages_downloaded = 0, active_workers = 0, stop = False,
          ledger = rows, files = stored, errlog = [],
          pcs = replicate (nat (sint (threads cfg))) Top\<rparr>)"

inductive reachable :: "Config \<Rightarrow> Crawler \<Rightarrow> bool" for cfg :: Config where
  reach_init: "reachable cfg (init_state cfg rows stored)"
| reach_step: "reachable cfg s \<Longrightarrow> step cfg t ev s = Some s' \<Longrightarrow> reachable cfg s'"

text \<open>
  A schedule names, step by step, the worker that moves and what libcurl does for it.
  A step that cannot be taken is passed over.
\<close>

fun run_schedule :: "Config \<Rightarrow> (nat \<times> Outcome) list \<Rightarrow> Crawler \<Rightarrow> Crawler" where
  "run_schedule cfg [] s = s"
| "run_schedule cfg ((t, ev) # sched) s =
     (case step cfg t ev s of
        None \<Rightarrow> run_schedule cfg sched s
      | Some s' \<Rightarrow> run_schedule cfg sched s')"

text \<open>
  The URLs for which \<open>mark_visited\<close> returned true along a schedule, in order: each entry
  is one call of \<open>process_url\<close>.
\<close>

definition claim_of :: "pc \<Rightarrow> pc \<Rightarrow> string list" where
  "claim_of p p' =
     (case p of
        MarkVisited url \<Rightarrow> (case p' of CheckLimit url' \<Rightarrow> [url] | _ \<Rightarrow> [])
      | _ \<Rightarrow> [])"

fun claims :: "Config \<Rightarrow> (nat \<times> Outcome) list \<Rightarrow> Crawler \<Rightarrow> string list" where
  "claims cfg [] s = []"
| "claims cfg ((t, ev) # sched) s =
     (case step cfg t ev s of
        None \<Rightarrow> claims cfg sched s
      | Some s' \<Rightarrow> claim_of (pcs s ! t) (pcs s' ! t) @ claims cfg sched s')"



subsection \<open>Counting workers by position\<close>

definition count_pcs :: "(pc \<Rightarrow> bool) \<Rightarrow> Crawler \<Rightarrow> nat" where
  "count_pcs P s = length (filter P (pcs s))"

text \<open>Between the \<open>fetch_add\<close> of line 388 and the \<open>fetch_sub\<close> of \<open>decrement_active\<close>.\<close>

fun is_active :: "pc \<Rightarrow> bool" where
  "is_active Top = False"
| "is_active LockQ = False"
| "is_active (Popped url) = False"
| "is_active EmptyQ = False"
| "is_active SetStopIdle = False"
| "is_active (Clamp keep_running) = False"
| "is_active SetStopLimit = False"
| "is_active Done = False"
| "is_active p = True"

fun is_clamp :: "pc \<Rightarrow> bool" where
  "is_clamp (Clamp keep_running) = True"
| "is_clamp p = False"

text \<open>
  The URL a worker has taken from the frontier and not yet marked visited, or has put
  into \<open>queued_\<close> and not yet pushed.
\<close>

fun held_url :: "pc \<Rightarrow> string option" where
  "held_url (Popped url) = Some url"
| "held_url (MarkVisited url) = Some url"
| "held_url (EnqPush current normalized links) = Some normalized"
| "held_url p = None"

text \<open>The URL a worker is processing and has not yet recorded in the ledger.\<close>

fun todo_url :: "pc \<Rightarrow> string option" where
  "todo_url (CheckLimit url) = Some url"
| "todo_url (Fetch url) = Some url"
| "todo_url (WriteFile url content lowered is_html parts) = Some url"
| "todo_url (WriteMeta url content lowered is_html file) = Some url"
| "todo_url p = None"



text \<open>After the check of line 433 has let the worker through, up to the \<open>fetch_add\<close> of line 470.\<close>

fun in_window :: "pc \<Rightarrow> bool" where
  "in_window (Fetch url) = True"
| "in_window (WriteFile url content lowered is_html parts) = True"
| "in_window (WriteMeta url content lowered is_html file) = True"
| "in_window (IncPages url content is_html) = True"
| "in_window p = False"

text \<open>Positions of a worker that holds no URL and is outside \<open>process_url\<close>.\<close>

fun idle_rank :: "pc \<Rightarrow> nat" where
  "idle_rank Top = 4"
| "idle_rank LockQ = 3"
| "idle_rank EmptyQ = 2"
| "idle_rank SetStopIdle = 1"
| "idle_rank p = 0"

fun is_idle :: "pc \<Rightarrow> bool" where
  "is_idle Top = True"
| "is_idle LockQ = True"
| "is_idle EmptyQ = True"
| "is_idle SetStopIdle = True"
| "is_idle Done = True"
| "is_idle p = False"

definition rank_sum :: "Crawler \<Rightarrow> nat" where
  "rank_sum s = sum_list (map idle_rank (pcs s))"

subsection \<open>Invariants of the parallel region\<close>

text \<open>
  The team has as many workers as \<open>threads\<close> says, and \<open>active_workers_\<close> counts the
  workers between their \<open>fetch_add\<close> and their \<open>fetch_sub\<close>; no worker is at the clamp.
\<close>

definition inv_len :: "Config \<Rightarrow> Crawler \<Rightarrow> bool" where
  "inv_len cfg s = (length (pcs s) = nat (sint (threads cfg)))"

definition inv_active :: "Crawler \<Rightarrow> bool" where
  "inv_active s = (sint (active_workers s) = int (count_pcs is_active s) \<and> (\<forall>i<length (pcs s). \<not> is_clamp (pcs s ! i)))"

text \<open>
  A URL is in \<open>queued_\<close> exactly when it is once in the frontier or held by one worker,
  and then it is not in \<open>visited_\<close>.
\<close>

definition inv_disjoint :: "Crawler \<Rightarrow> bool" where
  "inv_disjoint s = (queued s \<inter> visited s = {})"

definition inv_token :: "Crawler \<Rightarrow> bool" where
  "inv_token s =
     (\<forall>u. int (count_list (frontier s) u) + int (count_pcs (\<lambda>p. held_url p = Some u) s)
          = of_bool (u \<in> queued s))"

text \<open>
  The first \<open>n\<close> rows of the ledger are those it had before the run. Among the rows
  after them a URL has at most one row or one worker about to write it, and only when
  it is in \<open>visited_\<close>.
\<close>

definition inv_ledger :: "nat \<Rightarrow> Crawler \<Rightarrow> bool" where
  "inv_ledger n s =
     (n \<le> length (ledger s) \<and>
      (\<forall>u. int (count_list (map fst (drop n (ledger s))) u)
             + int (count_pcs (\<lambda>p. todo_url p = Some u) s)
          \<le> of_bool (u \<in> visited s)))"


text \<open>The count of pages and the workers that may still add to it.\<close>

definition inv_limit :: "Config \<Rightarrow> Crawler \<Rightarrow> bool" where
  "inv_limit cfg s =
     (sint (pages_downloaded s) + int (count_pcs in_window s)
        \<le> sint (max_pages cfg) + int (length (pcs s)) - 1)"

text \<open>At most one worker holds \<open>queue_mutex_\<close>.\<close>

definition inv_mutex :: "Crawler \<Rightarrow> bool" where
  "inv_mutex s =
     (\<forall>i<length (pcs s). \<forall>j<length (pcs s).
        holds_queue_mutex (pcs s ! i) \<and> holds_queue_mutex (pcs s ! j) \<longrightarrow> i = j)"

text \<open>
  Positions that follow the sight of an empty frontier, positions on the way out because
  of \<open>max_pages\<close>, and the position between the pop and the \<open>fetch_add\<close>.
\<close>

fun saw_empty :: "pc \<Rightarrow> bool" where
  "saw_empty EmptyQ = True"
| "saw_empty SetStopIdle = True"
| "saw_empty p = False"

fun is_limit_exit :: "pc \<Rightarrow> bool" where
  "is_limit_exit SetStopLimit = True"
| "is_limit_exit (DecActive keep_running) = (\<not> keep_running)"
| "is_limit_exit (Clamp keep_running) = (\<not> keep_running)"
| "is_limit_exit p = False"

fun is_popped :: "pc \<Rightarrow> bool" where
  "is_popped (Popped url) = True"
| "is_popped p = False"

definition inv_empty :: "Crawler \<Rightarrow> bool" where
  "inv_empty s = (\<forall>i<length (pcs s). saw_empty (pcs s ! i) \<longrightarrow> frontier s = [])"

definition inv_idle_stop :: "Crawler \<Rightarrow> bool" where
  "inv_idle_stop s = (\<forall>i<length (pcs s). pcs s ! i = SetStopIdle \<longrightarrow> active_workers s = 0)"

definition inv_nolimit :: "Config \<Rightarrow> Crawler \<Rightarrow> bool" where
  "inv_nolimit cfg s = (sint (max_pages cfg) < 0 \<longrightarrow> (\<forall>i<length (pcs s). \<not> is_limit_exit (pcs s ! i)))"

definition inv_stopped :: "Config \<Rightarrow> Crawler \<Rightarrow> bool" where
  "inv_stopped cfg s =
     (sint (max_pages cfg) < 0 \<and> stop s \<longrightarrow>
        frontier s = [] \<and> active_workers s = 0 \<and> (\<forall>i<length (pcs s). \<not> is_popped (pcs s ! i)))"

definition inv_all :: "Config \<Rightarrow> Crawler \<Rightarrow> bool" where
  "inv_all cfg s =
     (inv_len cfg s \<and> inv_active s \<and> inv_disjoint s \<and> inv_token s \<and>
      inv_mutex s \<and> inv_empty s \<and> inv_idle_stop s \<and> inv_nolimit cfg s \<and> inv_stopped cfg s)"

text \<open>
  The state of a run whose seed was rejected; \<open>rows\<close> and \<open>stored\<close> are the ledger rows
  and the files from before the run.
\<close>

definition inv_unseeded ::
  "(string \<times> fs_path \<times> string) list \<Rightarrow> (fs_path \<times> string) list \<Rightarrow> Crawler \<Rightarrow> bool" where
  "inv_unseeded rows stored s =
     (frontier s = [] \<and> visited s = {} \<and> queued s = {} \<and> pages_downloaded s = 0
      \<and> active_workers s = 0 \<and> ledger s = rows \<and> files s = stored
      \<and> (\<forall>i<length (pcs s). is_idle (pcs s ! i)))"






section \<open>Example runs\<close>

text \<open>A two-worker crawl of one site, a few responses, and schedules over them.\<close>

definition site_config :: Config where
  "site_config =
     \<lparr>start_url = ''https://ex.test/a'', allowed_domains = [''ex.test''],
      raw_output = ''out'', max_pages = - 1, threads = 2,
      allowed_extensions = {''.html'', ''.pdf''}\<rparr>"

definition response :: "nat \<Rightarrow> string \<Rightarrow> string \<Rightarrow> Outcome" where
  "response code ctype content =
     Performed \<lparr>curl_code = 0, error_text = ''No error'', status = code,
                header_lines = [''Content-Type: '' @ ctype @ [CHR 0x0D, CHR 0x0A]],
                chunks = [content]\<rparr>"

definition plain_page :: Outcome where
  "plain_page = response 200 ''Text/HTML; charset=UTF-8'' ''<html>hi</html>''"

definition missing_page :: Outcome where
  "missing_page = response 404 ''text/html'' ''Not Found''"

definition timed_out :: Transfer where
  "timed_out =
     \<lparr>curl_code = 28, error_text = ''Timeout was reached'', status = 0,
      header_lines = [], chunks = [''<html>par'']\<rparr>"

definition twice_linked_page :: Outcome where
  "twice_linked_page =
     response 200 ''text/html''
       (''<a href='' @ [CHR 0x22] @ ''/x'' @ [CHR 0x22] @ ''>x</a> <a HREF = ''
          @ [CHR 0x27] @ ''/x#top'' @ [CHR 0x27] @ ''>again</a>'')"

definition two_links_page :: Outcome where
  "two_links_page =
     response 200 ''text/html''
       (''<a href='' @ [CHR 0x22] @ ''/b'' @ [CHR 0x22] @ ''>b</a><a href=''
          @ [CHR 0x22] @ ''c'' @ [CHR 0x22] @ ''>c</a>'')"

text \<open>\<open>solo t n ev\<close>: worker \<open>t\<close> is scheduled \<open>n\<close> times in a row.\<close>

definition solo :: "nat \<Rightarrow> nat \<Rightarrow> Outcome \<Rightarrow> (nat \<times> Outcome) list" where
  "solo t n ev = replicate n (t, ev)"

definition claimed_state :: Crawler where
  "claimed_state = run_schedule site_config (solo 0 3 plain_page) (init_state site_config [] [])"

definition race_state :: Crawler where
  "race_state =
     run_schedule site_config (solo 0 3 plain_page @ solo 1 2 plain_page) (init_state site_config [] [])"

definition fetch_state :: Crawler where
  "fetch_state = run_schedule site_config (solo 0 5 plain_page) (init_state site_config [] [])"

definition stored_state :: Crawler where
  "stored_state = run_schedule site_config (solo 0 8 plain_page) (init_state site_config [] [])"

definition missing_state :: Crawler where
  "missing_state = run_schedule site_config (solo 0 8 missing_page) (init_state site_config [] [])"

definition dup_state :: Crawler where
  "dup_state = run_schedule site_config (solo 0 11 twice_linked_page) (init_state site_config [] [])"

definition dedup_schedule :: "(nat \<times> Outcome) list" where
  "dedup_schedule = solo 0 14 twice_linked_page @ solo 1 9 twice_linked_page"

definition last_look_state :: Crawler where
  "last_look_state = run_schedule site_config (solo 0 14 plain_page) (init_state site_config [] [])"

definition stopped_state :: Crawler where
  "stopped_state = run_schedule site_config (solo 0 15 plain_page) (init_state site_config [] [])"

definition limited_config :: Config where
  "limited_config = site_config\<lparr>max_pages := 2, threads := 3\<rparr>"

definition overshoot_state :: Crawler where
  "overshoot_state =
     run_schedule limited_config
       (solo 0 13 two_links_page @ solo 1 5 two_links_page @ solo 2 5 two_links_page
          @ solo 1 4 two_links_page @ solo 2 4 two_links_page)
       (init_state limited_config [] [])"

text \<open>A second run over the output of the run that ended in \<open>stored_state\<close>.\<close>

definition second_run_state :: Crawler where
  "second_run_state =
     run_schedule site_config (solo 0 8 plain_page)
       (init_state site_config (ledger stored_state) (files stored_state))"

definition foreign_seed_config :: Config where
  "foreign_seed_config = default_config\<lparr>start_url := ''https://example.org/'', threads := 2\<rparr>"

text \<open>A run with a rejected seed over the output of the run that ended in \<open>stored_state\<close>.\<close>

definition foreign_rerun_state :: Crawler where
  "foreign_rerun_state =
     run_schedule foreign_seed_config (solo 0 4 plain_page @ solo 1 2 plain_page)
       (init_state foreign_seed_config (ledger stored_state) (files stored_state))"

definition foreign_seed_state :: Crawler where
  "foreign_seed_state =
     run_schedule foreign_seed_config (solo 0 4 plain_page @ solo 1 2 plain_page)
       (init_state foreign_seed_config [] [])"

section \<open>Properties of the URL utilities\<close>

lemma strip_fragment_idem: "strip_fragment (strip_fragment x) = strip_fragment x"
  by (simp add: strip_fragment_def)

lemma extension_from_url_strip:
  "extension_from_url (strip_fragment url) = extension_from_url url"
  by (simp add: extension_from_url_def strip_fragment_idem)

section \<open>Lemmas about steps and invariants\<close>

lemma filter_update_count:
  "t < length xs \<Longrightarrow>
   int (length (filter P (xs[t := y]))) =
     int (length (filter P xs)) - of_bool (P (xs ! t)) + of_bool (P y)"
proof (induction xs arbitrary: t)
  case Nil
  then show ?case by simp
next
  case (Cons x xs)
  then show ?case by (cases t) auto
qed

lemma count_pcs_goto:
  "t < length (pcs s) \<Longrightarrow>
   int (count_pcs P (goto s t p)) =
     int (count_pcs P s) - of_bool (P (pcs s ! t)) + of_bool (P p)"
  by (simp add: count_pcs_def goto_def filter_update_count)

lemma count_pcs_pos: "t < length (pcs s) \<Longrightarrow> P (pcs s ! t) \<Longrightarrow> 1 \<le> int (count_pcs P s)"
proof -
  assume "t < length (pcs s)" "P (pcs s ! t)"
  then have "pcs s ! t \<in> set (filter P (pcs s))" by simp
  then have "0 < length (filter P (pcs s))" by (rule length_pos_if_in_set)
  then show ?thesis by (cases "filter P (pcs s)") (simp_all add: count_pcs_def)
qed

lemma count_pcs_less: "t < length (pcs s) \<Longrightarrow> \<not> P (pcs s ! t) \<Longrightarrow> int (count_pcs P s) < int (length (pcs s))"
proof -
  assume a: "t < length (pcs s)" "\<not> P (pcs s ! t)"
  have "int (length (filter (\<lambda>p. \<not> P p) (pcs s))) \<ge> 1"
    using count_pcs_pos[of t s "\<lambda>p. \<not> P p"] a by (simp add: count_pcs_def)
  moreover have "length (filter P (pcs s)) + length (filter (\<lambda>p. \<not> P p) (pcs s)) = length (pcs s)"
    by (rule sum_length_filter_compl)
  ultimately show ?thesis by (simp add: count_pcs_def)
qed

lemma count_pcs_zero: "count_pcs P s = 0 \<longleftrightarrow> (\<forall>i<length (pcs s). \<not> P (pcs s ! i))"
  by (auto simp: count_pcs_def filter_empty_conv all_set_conv_all_nth)

lemma sint_inc: "sint (x :: 64 word) < 2147483648 \<Longrightarrow> sint (x + 1) = sint x + 1"
proof -
  assume a: "sint x < 2147483648"
  have "- (2 ^ 63) \<le> sint x" using sint_ge [of x] by simp
  with a show ?thesis
    by (simp add: sint_word_ariths signed_take_bit_int_eq_self)
qed

lemma sint_dec: "1 \<le> sint (x :: 64 word) \<Longrightarrow> sint (x - 1) = sint x - 1"
proof -
  assume a: "1 \<le> sint x"
  have "sint x < 2 ^ 63" using sint_lt [of x] by simp
  with a show ?thesis
    by (simp add: sint_word_ariths signed_take_bit_int_eq_self)
qed

lemma sint_inc_le: "sint (x + 1 :: 64 word) \<le> sint x + 1"
proof (cases "sint x + 1 < 2 ^ 63")
  case True
  have "- (2 ^ 63) \<le> sint x" using sint_ge [of x] by simp
  with True show ?thesis by (simp add: sint_word_ariths signed_take_bit_int_eq_self)
next
  case False
  have "sint (x + 1) < 2 ^ 63" using sint_lt [of "x + 1"] by simp
  with False show ?thesis by simp
qed

lemma threads_bound: "int (nat (sint (w :: 32 word))) < 2147483648"
  using sint_lt [of w] by simp


lemma step_thread:
  assumes "step cfg t ev s = Some s'"
  shows "t < length (pcs s)" and "thread_step cfg ev s t (pcs s ! t) = Some s'"
  using assms by (auto simp: step_def split: if_splits)

lemma length_pcs_goto [simp]: "length (pcs (goto s t p)) = length (pcs s)"
  by (simp add: goto_def)

lemma pcs_goto_nth:
  "i < length (pcs s) \<Longrightarrow> pcs (goto s t p) ! i = (if i = t then p else pcs s ! i)"
  by (simp add: goto_def)

lemma goto_fields [simp]:
  "frontier (goto s t p) = frontier s"
  "visited (goto s t p) = visited s"
  "queued (goto s t p) = queued s"
  "pages_downloaded (goto s t p) = pages_downloaded s"
  "active_workers (goto s t p) = active_workers s"
  "stop (goto s t p) = stop s"
  "ledger (goto s t p) = ledger s"
  "files (goto s t p) = files s"
  "errlog (goto s t p) = errlog s"
  by (simp_all add: goto_def)

lemma count_pcs_fields [simp]:
  "count_pcs P (s\<lparr>frontier := a\<rparr>) = count_pcs P s"
  "count_pcs P (s\<lparr>visited := b\<rparr>) = count_pcs P s"
  "count_pcs P (s\<lparr>queued := c\<rparr>) = count_pcs P s"
  "count_pcs P (s\<lparr>pages_downloaded := d\<rparr>) = count_pcs P s"
  "count_pcs P (s\<lparr>active_workers := e\<rparr>) = count_pcs P s"
  "count_pcs P (s\<lparr>stop := f\<rparr>) = count_pcs P s"
  "count_pcs P (s\<lparr>ledger := g\<rparr>) = count_pcs P s"
  "count_pcs P (s\<lparr>files := h\<rparr>) = count_pcs P s"
  "count_pcs P (s\<lparr>errlog := k\<rparr>) = count_pcs P s"
  by (simp_all add: count_pcs_def)

lemma inv_len_step:
  assumes "inv_len cfg s" and "step cfg t ev s = Some s'"
  shows "inv_len cfg s'"
proof -
  note ts = step_thread [OF assms(2)]
  show ?thesis
    using ts assms(1)
    by (cases "pcs s ! t")
       (auto simp: inv_len_def Let_def split: if_splits list.splits option.splits)
qed

lemma inv_active_step:
  assumes "inv_active s" and "inv_len cfg s" and "step cfg t ev s = Some s'"
  shows "inv_active s'"
proof -
  note ts = step_thread [OF assms(3)]
  have bound: "int (count_pcs is_active s) < 2147483648"
  proof -
    have "int (count_pcs is_active s) \<le> int (length (pcs s))" by (simp add: count_pcs_def)
    with assms(2) threads_bound [of "threads cfg"] show ?thesis by (simp add: inv_len_def)
  qed
  have pos: "is_active (pcs s ! t) \<Longrightarrow> 1 \<le> int (count_pcs is_active s)"
    using count_pcs_pos [OF ts(1), of is_active] by simp
  have noclamp: "\<And>i. i < length (pcs s) \<Longrightarrow> \<not> is_clamp (pcs s ! i)"
    using assms(1) by (simp add: inv_active_def)
  have act: "sint (active_workers s) = int (count_pcs is_active s)" using assms(1) by (simp add: inv_active_def)
  note nc = noclamp [OF ts(1)]
  show ?thesis
    unfolding inv_active_def
    using ts bound pos noclamp nc act
    by (cases "pcs s ! t")
       (auto simp: Let_def count_pcs_goto pcs_goto_nth sint_inc sint_dec split: if_splits list.splits option.splits)
qed

lemma queue_mutex_free_iff:
  "queue_mutex_free s \<longleftrightarrow> (\<forall>i<length (pcs s). \<not> holds_queue_mutex (pcs s ! i))"
  by (simp add: queue_mutex_free_def list_ex_iff all_set_conv_all_nth)

lemma visited_mutex_free_iff:
  "visited_mutex_free s \<longleftrightarrow> (\<forall>i<length (pcs s). \<not> holds_visited_mutex (pcs s ! i))"
  by (simp add: visited_mutex_free_def list_ex_iff all_set_conv_all_nth)

lemma inv_disjoint_step:
  assumes "inv_disjoint s" and "step cfg t ev s = Some s'"
  shows "inv_disjoint s'"
proof -
  note ts = step_thread [OF assms(2)]
  show ?thesis
    using ts assms(1)
    by (cases "pcs s ! t")
       (auto simp: inv_disjoint_def Let_def split: if_splits list.splits option.splits)
qed

lemma inv_token_step:
  assumes "inv_token s" and "inv_disjoint s" and "step cfg t ev s = Some s'"
  shows "inv_token s'"
  unfolding inv_token_def
proof
  fix u
  note ts = step_thread [OF assms(3)]
  have tok: "int (count_list (frontier s) u) + int (count_pcs (\<lambda>p. held_url p = Some u) s)
          = of_bool (u \<in> queued s)"
    using assms(1) by (simp add: inv_token_def)
  have pos: "held_url (pcs s ! t) = Some u \<Longrightarrow> 1 \<le> int (count_pcs (\<lambda>p. held_url p = Some u) s)"
    using count_pcs_pos [OF ts(1), of "\<lambda>p. held_url p = Some u"] by simp
  have dis: "u \<in> queued s \<Longrightarrow> u \<notin> visited s"
    using assms(2) by (auto simp: inv_disjoint_def)
  show "int (count_list (frontier s') u) + int (count_pcs (\<lambda>p. held_url p = Some u) s')
          = of_bool (u \<in> queued s')"
    using ts tok pos dis
    by (cases "pcs s ! t")
       (auto simp: Let_def count_pcs_goto of_bool_def split: if_splits list.splits option.splits)
qed

lemma inv_ledger_step:
  assumes "inv_ledger n s" and "step cfg t ev s = Some s'"
  shows "inv_ledger n s'"
proof -
  note ts = step_thread [OF assms(2)]
  have len: "n \<le> length (ledger s)" using assms(1) by (simp add: inv_ledger_def)
  have len': "n \<le> length (ledger s')"
    using ts len
    by (cases "pcs s ! t") (auto simp: Let_def split: if_splits list.splits option.splits)
  have "int (count_list (map fst (drop n (ledger s'))) u)
          + int (count_pcs (\<lambda>p. todo_url p = Some u) s')
          \<le> of_bool (u \<in> visited s')" for u
  proof -
    have led: "int (count_list (map fst (drop n (ledger s))) u)
          + int (count_pcs (\<lambda>p. todo_url p = Some u) s)
          \<le> of_bool (u \<in> visited s)"
      using assms(1) by (simp add: inv_ledger_def)
    have pos: "todo_url (pcs s ! t) = Some u \<Longrightarrow> 1 \<le> int (count_pcs (\<lambda>p. todo_url p = Some u) s)"
      using count_pcs_pos [OF ts(1), of "\<lambda>p. todo_url p = Some u"] by simp
    show ?thesis
      using ts led pos len
      by (cases "pcs s ! t")
         (auto simp: Let_def count_pcs_goto split: if_splits list.splits option.splits)
  qed
  with len' show ?thesis by (simp add: inv_ledger_def)
qed

lemma inv_ledger_run:
  "inv_ledger n s \<Longrightarrow> inv_ledger n (run_schedule cfg sched s)"
proof (induction sched arbitrary: s)
  case Nil
  then show ?case by simp
next
  case (Cons e sched)
  obtain t ev where e: "e = (t, ev)" by (cases e)
  show ?case
  proof (cases "step cfg t ev s")
    case None
    with Cons e show ?thesis by simp
  next
    case (Some s')
    with Cons.prems have "inv_ledger n s'" by (auto intro: inv_ledger_step)
    with Cons.IH Some e show ?thesis by simp
  qed
qed

lemma inv_limit_step:
  assumes "inv_limit cfg s" and "0 \<le> sint (max_pages cfg)" and "step cfg t ev s = Some s'"
  shows "inv_limit cfg s'"
proof -
  note ts = step_thread [OF assms(3)]
  have lim: "sint (pages_downloaded s) + int (count_pcs in_window s)
        \<le> sint (max_pages cfg) + int (length (pcs s)) - 1"
    using assms(1) by (simp add: inv_limit_def)
  have less: "\<not> in_window (pcs s ! t) \<Longrightarrow> int (count_pcs in_window s) < int (length (pcs s))"
    using count_pcs_less [OF ts(1), of in_window] by simp
  have inc: "sint (pages_downloaded s + 1) \<le> sint (pages_downloaded s) + 1"
    by (rule sint_inc_le)
  show ?thesis
    unfolding inv_limit_def
    using ts lim less inc assms(2)
    by (cases "pcs s ! t")
       (auto simp: Let_def count_pcs_goto limit_reached_def split: if_splits list.splits option.splits)
qed

lemma inv_mutex_step:
  assumes "inv_mutex s" and "step cfg t ev s = Some s'"
  shows "inv_mutex s'"
proof -
  note ts = step_thread [OF assms(2)]
  have mu: "\<And>i j. i < length (pcs s) \<Longrightarrow> j < length (pcs s) \<Longrightarrow>
      holds_queue_mutex (pcs s ! i) \<Longrightarrow> holds_queue_mutex (pcs s ! j) \<Longrightarrow> i = j"
    using assms(1) by (auto simp: inv_mutex_def)
  show ?thesis
    unfolding inv_mutex_def
    using ts mu
    by (cases "pcs s ! t")
       (auto simp: Let_def pcs_goto_nth queue_mutex_free_iff split: if_splits list.splits option.splits)
qed


lemma step_length:
  assumes "step cfg t ev s = Some s'"
  shows "length (pcs s') = length (pcs s)"
proof -
  note ts = step_thread [OF assms]
  show ?thesis
    using ts
    by (cases "pcs s ! t") (auto simp: Let_def split: if_splits list.splits option.splits)
qed

lemma saw_empty_holds: "saw_empty p \<Longrightarrow> holds_queue_mutex p"
  by (cases p) auto

lemma is_popped_holds: "is_popped p \<Longrightarrow> holds_queue_mutex p"
  by (cases p) auto

lemma inv_empty_step:
  assumes "inv_empty s" and "step cfg t ev s = Some s'"
  shows "inv_empty s'"
  unfolding inv_empty_def
proof (intro allI impI)
  fix i
  assume "i < length (pcs s')" and se: "saw_empty (pcs s' ! i)"
  then have i: "i < length (pcs s)" by (simp add: step_length [OF assms(2)])
  note ts = step_thread [OF assms(2)]
  have em: "saw_empty (pcs s ! i) \<Longrightarrow> frontier s = []"
    using assms(1) i by (auto simp: inv_empty_def)
  have hq: "saw_empty (pcs s ! i) \<Longrightarrow> \<not> queue_mutex_free s"
    using i saw_empty_holds [of "pcs s ! i"] by (auto simp: queue_mutex_free_iff)
  show "frontier s' = []"
    using ts i se em hq
    by (cases "pcs s ! t")
       (auto simp: Let_def pcs_goto_nth split: if_splits list.splits option.splits)
qed

lemma active_zero:
  assumes "inv_active s" and "active_workers s = 0" and "i < length (pcs s)"
  shows "\<not> is_active (pcs s ! i)"
proof -
  have "count_pcs is_active s = 0" using assms(1,2) by (simp add: inv_active_def)
  with assms(3) show ?thesis by (simp add: count_pcs_zero)
qed

lemma step_other:
  assumes "step cfg t ev s = Some s'" and "i \<noteq> t"
  shows "pcs s' ! i = pcs s ! i"
proof -
  note ts = step_thread [OF assms(1)]
  show ?thesis
    using ts assms(2)
    by (cases "pcs s ! t") (auto simp: Let_def goto_def split: if_splits list.splits option.splits)
qed

lemma step_active_frame:
  assumes "step cfg t ev s = Some s'"
    and "\<not> is_popped (pcs s ! t)" and "\<not> is_active (pcs s ! t)" and "\<not> is_clamp (pcs s ! t)"
  shows "active_workers s' = active_workers s"
proof -
  note ts = step_thread [OF assms(1)]
  show ?thesis
    using ts assms(2-4)
    by (cases "pcs s ! t") (auto simp: Let_def split: if_splits list.splits option.splits)
qed

lemma step_to_stop_idle:
  assumes "step cfg t ev s = Some s'" and "pcs s' ! t = SetStopIdle"
  shows "pcs s ! t = EmptyQ \<and> active_workers s = 0 \<and> s' = goto s t SetStopIdle"
proof -
  note ts = step_thread [OF assms(1)]
  show ?thesis
    using ts assms(2)
    by (cases "pcs s ! t") (auto simp: Let_def pcs_goto_nth split: if_splits list.splits option.splits)
qed

lemma inv_idle_stop_step:
  assumes "inv_idle_stop s" and "inv_active s" and "inv_mutex s" and "step cfg t ev s = Some s'"
  shows "inv_idle_stop s'"
  unfolding inv_idle_stop_def
proof (intro allI impI)
  fix i
  assume "i < length (pcs s')" and si: "pcs s' ! i = SetStopIdle"
  then have i: "i < length (pcs s)" by (simp add: step_length [OF assms(4)])
  note ts = step_thread [OF assms(4)]
  show "active_workers s' = 0"
  proof (cases "i = t")
    case True
    with si step_to_stop_idle [OF assms(4)] show ?thesis by simp
  next
    case False
    with si step_other [OF assms(4)] have old: "pcs s ! i = SetStopIdle" by simp
    with assms(1) i have z: "active_workers s = 0" by (auto simp: inv_idle_stop_def)
    have "holds_queue_mutex (pcs s ! i)" using old by simp
    with assms(3) i ts(1) False have "\<not> holds_queue_mutex (pcs s ! t)"
      by (auto simp: inv_mutex_def)
    then have np: "\<not> is_popped (pcs s ! t)" using is_popped_holds by blast
    have na: "\<not> is_active (pcs s ! t)" by (rule active_zero [OF assms(2) z ts(1)])
    have nc: "\<not> is_clamp (pcs s ! t)" using assms(2) ts(1) by (simp add: inv_active_def)
    from step_active_frame [OF assms(4) np na nc] z show ?thesis by simp
  qed
qed

lemma inv_nolimit_step:
  assumes "inv_nolimit cfg s" and "step cfg t ev s = Some s'"
  shows "inv_nolimit cfg s'"
  unfolding inv_nolimit_def
proof (intro allI impI)
  fix i
  assume neg: "sint (max_pages cfg) < 0" and "i < length (pcs s')"
  then have i: "i < length (pcs s)" by (simp add: step_length [OF assms(2)])
  note ts = step_thread [OF assms(2)]
  have nl: "\<not> is_limit_exit (pcs s ! i)" and nlt: "\<not> is_limit_exit (pcs s ! t)"
    using assms(1) neg i ts(1) by (auto simp: inv_nolimit_def)
  show "\<not> is_limit_exit (pcs s' ! i)"
    using ts i neg nl nlt
    by (cases "pcs s ! t")
       (auto simp: Let_def pcs_goto_nth limit_reached_def split: if_splits list.splits option.splits)
qed

lemma inv_stopped_step:
  assumes "inv_stopped cfg s" and "inv_active s" and "inv_mutex s" and "inv_empty s"
    and "inv_idle_stop s" and "inv_nolimit cfg s" and "step cfg t ev s = Some s'"
  shows "inv_stopped cfg s'"
  unfolding inv_stopped_def
proof (intro impI)
  assume a: "sint (max_pages cfg) < 0 \<and> stop s'"
  then have neg: "sint (max_pages cfg) < 0" and stop': "stop s'" by simp_all
  note ts = step_thread [OF assms(7)]
  have st: "stop s \<Longrightarrow> frontier s = [] \<and> active_workers s = 0"
    using assms(1) neg by (auto simp: inv_stopped_def)
  have na: "active_workers s = 0 \<Longrightarrow> \<not> is_active (pcs s ! t)"
    using active_zero [OF assms(2) _ ts(1)] by simp
  have nc: "\<not> is_clamp (pcs s ! t)" using assms(2) ts(1) by (simp add: inv_active_def)
  have em: "saw_empty (pcs s ! t) \<Longrightarrow> frontier s = []"
    using assms(4) ts(1) by (auto simp: inv_empty_def)
  have idle: "pcs s ! t = SetStopIdle \<Longrightarrow> active_workers s = 0"
    using assms(5) ts(1) by (auto simp: inv_idle_stop_def)
  have nl: "\<not> is_limit_exit (pcs s ! t)"
    using assms(6) ts(1) neg by (auto simp: inv_nolimit_def)
  have stpt: "stop s \<Longrightarrow> \<not> is_popped (pcs s ! t)"
    using assms(1) neg ts(1) by (auto simp: inv_stopped_def)
  have shared: "frontier s' = [] \<and> active_workers s' = 0"
    using ts stop' st stpt na nc em idle nl
    by (cases "pcs s ! t")
       (auto simp: Let_def split: if_splits list.splits option.splits)
  have popped: "\<not> is_popped (pcs s' ! i)" if "i < length (pcs s')" for i
  proof -
    from that have i: "i < length (pcs s)" by (simp add: step_length [OF assms(7)])
    have stp: "stop s \<Longrightarrow> \<not> is_popped (pcs s ! i)"
      using assms(1) neg i by (auto simp: inv_stopped_def)
    have mu: "is_popped (pcs s ! i) \<Longrightarrow> holds_queue_mutex (pcs s ! t) \<Longrightarrow> i = t"
      using assms(3) ts(1) i is_popped_holds [of "pcs s ! i"] by (auto simp: inv_mutex_def)
    show ?thesis
      using ts i stop' st stp mu nl
      by (cases "pcs s ! t")
         (auto simp: Let_def pcs_goto_nth split: if_splits list.splits option.splits)
  qed
  from shared popped
  show "frontier s' = [] \<and> active_workers s' = 0 \<and> (\<forall>i<length (pcs s'). \<not> is_popped (pcs s' ! i))"
    by simp
qed


lemma pcs_init [simp]:
  "pcs (init_state cfg rows stored) = replicate (nat (sint (threads cfg))) Top"
  by (simp add: init_state_def Let_def)

lemma count_pcs_init:
  "count_pcs P (init_state cfg rows stored) = (if P Top then nat (sint (threads cfg)) else 0)"
  by (simp add: count_pcs_def)

lemma init_fields [simp]:
  "visited (init_state cfg rows stored) = {}"
  "pages_downloaded (init_state cfg rows stored) = 0"
  "active_workers (init_state cfg rows stored) = 0"
  "stop (init_state cfg rows stored) = False"
  "ledger (init_state cfg rows stored) = rows"
  "files (init_state cfg rows stored) = stored"
  "queued (init_state cfg rows stored) = set (frontier (init_state cfg rows stored))"
  by (simp_all add: init_state_def Let_def)

lemma frontier_init:
  "frontier (init_state cfg rows stored) =
     (case enqueue_candidate cfg (start_url cfg) of None \<Rightarrow> [] | Some normalized \<Rightarrow> [normalized])"
  by (simp add: init_state_def Let_def)

lemma inv_all_init: "inv_all cfg (init_state cfg rows stored)"
  unfolding inv_all_def
proof (intro conjI)
  show "inv_len cfg (init_state cfg rows stored)" by (simp add: inv_len_def)
  show "inv_active (init_state cfg rows stored)" by (simp add: inv_active_def count_pcs_init)
  show "inv_disjoint (init_state cfg rows stored)" by (simp add: inv_disjoint_def)
  show "inv_token (init_state cfg rows stored)"
    by (auto simp: inv_token_def count_pcs_init frontier_init split: option.splits)
  show "inv_mutex (init_state cfg rows stored)" by (simp add: inv_mutex_def)
  show "inv_empty (init_state cfg rows stored)" by (simp add: inv_empty_def)
  show "inv_idle_stop (init_state cfg rows stored)" by (simp add: inv_idle_stop_def)
  show "inv_nolimit cfg (init_state cfg rows stored)" by (simp add: inv_nolimit_def)
  show "inv_stopped cfg (init_state cfg rows stored)" by (simp add: inv_stopped_def)
qed

lemma inv_ledger_init: "inv_ledger (length rows) (init_state cfg rows stored)"
  by (simp add: inv_ledger_def count_pcs_init)

lemma inv_all_step:
  assumes "inv_all cfg s" and "step cfg t ev s = Some s'"
  shows "inv_all cfg s'"
  using assms
  unfolding inv_all_def
  by (intro conjI)
     (blast intro: inv_len_step inv_active_step inv_disjoint_step inv_token_step
        inv_mutex_step inv_empty_step inv_idle_stop_step inv_nolimit_step
        inv_stopped_step)+

lemma reachable_inv_all: "reachable cfg s \<Longrightarrow> inv_all cfg s"
  by (induction rule: reachable.induct) (auto intro: inv_all_init inv_all_step)

lemma reachable_run: "reachable cfg s \<Longrightarrow> reachable cfg (run_schedule cfg sched s)"
proof (induction sched arbitrary: s)
  case Nil
  then show ?case by simp
next
  case (Cons e sched)
  obtain t ev where e: "e = (t, ev)" by (cases e)
  show ?case
  proof (cases "step cfg t ev s")
    case None
    with Cons e show ?thesis by simp
  next
    case (Some s')
    with Cons.prems have "reachable cfg s'" by (auto intro: reachable.reach_step)
    with Cons.IH Some e show ?thesis by simp
  qed
qed

lemma inv_limit_init:
  assumes "0 \<le> sint (max_pages cfg)" and "0 < sint (threads cfg)"
  shows "inv_limit cfg (init_state cfg rows stored)"
  using assms by (simp add: inv_limit_def count_pcs_init)

lemma reachable_inv_limit:
  assumes "reachable cfg s" and "0 \<le> sint (max_pages cfg)" and "0 < sint (threads cfg)"
  shows "inv_limit cfg s"
  using assms
  by (induction rule: reachable.induct) (auto intro: inv_limit_init inv_limit_step)

lemma step_visited_mono:
  assumes "step cfg t ev s = Some s'"
  shows "visited s \<subseteq> visited s'"
proof -
  note ts = step_thread [OF assms]
  show ?thesis
    using ts
    by (cases "pcs s ! t") (auto simp: Let_def split: if_splits list.splits option.splits)
qed

lemma step_mark_visited:
  assumes "step cfg t ev s = Some s'" and "pcs s ! t = MarkVisited u"
  shows "(pcs s' ! t = CheckLimit u) = (u \<notin> visited s)" and "u \<in> visited s'"
    and "pcs s' ! t = CheckLimit u \<or> pcs s' ! t = DecActive True"
    and "frontier s' = frontier s"
proof -
  note ts = step_thread [OF assms(1)]
  show "(pcs s' ! t = CheckLimit u) = (u \<notin> visited s)" and "u \<in> visited s'"
    and "pcs s' ! t = CheckLimit u \<or> pcs s' ! t = DecActive True"
    and "frontier s' = frontier s"
    using ts assms(2) by (auto simp: pcs_goto_nth split: if_splits)
qed

lemma step_claim:
  assumes "step cfg t ev s = Some s'"
  shows "claim_of (pcs s ! t) (pcs s' ! t) = [] \<or>
         (\<exists>u. claim_of (pcs s ! t) (pcs s' ! t) = [u] \<and> u \<notin> visited s \<and> u \<in> visited s')"
proof (cases "pcs s ! t")
  case (MarkVisited u)
  from step_mark_visited(1,2,3) [OF assms MarkVisited] MarkVisited
  show ?thesis by (auto simp: claim_of_def)
qed (simp_all add: claim_of_def)

lemma claims_fresh:
  "distinct (claims cfg sched s) \<and> set (claims cfg sched s) \<inter> visited s = {}"
proof (induction sched arbitrary: s)
  case Nil
  show ?case by simp
next
  case (Cons e sched)
  obtain t ev where e: "e = (t, ev)" by (cases e)
  show ?case
  proof (cases "step cfg t ev s")
    case None
    with Cons.IH [of s] e show ?thesis by simp
  next
    case (Some s')
    note ih = Cons.IH [of s']
    note mono = step_visited_mono [OF Some]
    from step_claim [OF Some] show ?thesis
    proof
      assume "claim_of (pcs s ! t) (pcs s' ! t) = []"
      with ih mono Some e show ?thesis by auto
    next
      assume "\<exists>u. claim_of (pcs s ! t) (pcs s' ! t) = [u] \<and> u \<notin> visited s \<and> u \<in> visited s'"
      then obtain u where u: "claim_of (pcs s ! t) (pcs s' ! t) = [u]" "u \<notin> visited s" "u \<in> visited s'"
        by blast
      with ih mono Some e show ?thesis by auto
    qed
  qed
qed

lemma count_list_distinct: "(\<And>u. count_list xs u \<le> 1) \<Longrightarrow> distinct xs"
proof (induction xs)
  case Nil
  show ?case by simp
next
  case (Cons x xs)
  have "count_list xs u \<le> 1" for u
    using Cons.prems [of u] by (simp split: if_splits)
  then have d: "distinct xs" by (rule Cons.IH)
  have "count_list xs x = 0" using Cons.prems [of x] by simp
  then have "x \<notin> set xs" by (simp add: count_list_0_iff)
  with d show ?case by simp
qed

lemma inv_ledger_distinct:
  assumes "inv_ledger n s"
  shows "distinct (map fst (drop n (ledger s)))"
proof (rule count_list_distinct)
  fix u
  have "int (count_list (map fst (drop n (ledger s))) u)
          + int (count_pcs (\<lambda>p. todo_url p = Some u) s)
          \<le> of_bool (u \<in> visited s)"
    using assms by (simp add: inv_ledger_def)
  then show "count_list (map fst (drop n (ledger s))) u \<le> 1"
    by (simp add: of_bool_def split: if_splits)
qed

lemma step_ledger_prefix:
  assumes "step cfg t ev s = Some s'" and "n \<le> length (ledger s)"
  shows "take n (ledger s') = take n (ledger s)"
proof -
  note ts = step_thread [OF assms(1)]
  show ?thesis
    using ts assms(2)
    by (cases "pcs s ! t") (auto simp: Let_def split: if_splits list.splits option.splits)
qed

lemma run_ledger_prefix:
  "inv_ledger n s \<Longrightarrow> take n (ledger (run_schedule cfg sched s)) = take n (ledger s)"
proof (induction sched arbitrary: s)
  case Nil
  then show ?case by simp
next
  case (Cons e sched)
  obtain t ev where e: "e = (t, ev)" by (cases e)
  show ?case
  proof (cases "step cfg t ev s")
    case None
    with Cons e show ?thesis by simp
  next
    case (Some s')
    from Cons.prems have len: "n \<le> length (ledger s)" by (simp add: inv_ledger_def)
    have "inv_ledger n s'" using Cons.prems Some by (auto intro: inv_ledger_step)
    from Cons.IH [OF this] step_ledger_prefix [OF Some len] Some e show ?thesis by simp
  qed
qed

lemma held_in_queued:
  assumes "inv_token s" and "i < length (pcs s)" and "held_url (pcs s ! i) = Some u"
  shows "u \<in> queued s" and "u \<notin> set (frontier s)"
proof -
  have tok: "int (count_list (frontier s) u) + int (count_pcs (\<lambda>p. held_url p = Some u) s)
          = of_bool (u \<in> queued s)"
    using assms(1) by (simp add: inv_token_def)
  have pos: "1 \<le> int (count_pcs (\<lambda>p. held_url p = Some u) s)"
    using count_pcs_pos [OF assms(2), of "\<lambda>p. held_url p = Some u"] assms(3) by simp
  from tok pos show "u \<in> queued s" by (simp add: of_bool_def split: if_splits)
  from tok pos have "count_list (frontier s) u = 0" by (simp add: of_bool_def split: if_splits)
  then show "u \<notin> set (frontier s)" by (simp add: count_list_0_iff)
qed

lemma queued_cases:
  assumes "inv_token s" and "u \<in> queued s"
  shows "u \<in> set (frontier s) \<or> (\<exists>i<length (pcs s). held_url (pcs s ! i) = Some u)"
proof (cases "u \<in> set (frontier s)")
  case True
  then show ?thesis by simp
next
  case False
  have tok: "int (count_list (frontier s) u) + int (count_pcs (\<lambda>p. held_url p = Some u) s)
          = of_bool (u \<in> queued s)"
    using assms(1) by (simp add: inv_token_def)
  with False assms(2) have "count_pcs (\<lambda>p. held_url p = Some u) s \<noteq> 0" by simp
  then show ?thesis by (simp add: count_pcs_zero)
qed

lemma frontier_in_queued:
  assumes "inv_token s"
  shows "set (frontier s) \<subseteq> queued s" and "distinct (frontier s)"
proof -
  have tok: "int (count_list (frontier s) u) + int (count_pcs (\<lambda>p. held_url p = Some u) s)
          = of_bool (u \<in> queued s)" for u
    using assms(1) by (simp add: inv_token_def)
  show "set (frontier s) \<subseteq> queued s"
  proof
    fix u assume "u \<in> set (frontier s)"
    then have "count_list (frontier s) u \<noteq> 0" by (simp add: count_list_0_iff)
    with tok [of u] show "u \<in> queued s" by (simp add: of_bool_def split: if_splits)
  qed
  show "distinct (frontier s)"
  proof (rule count_list_distinct)
    fix u
    from tok [of u] show "count_list (frontier s) u \<le> 1" by (simp add: of_bool_def split: if_splits)
  qed
qed

lemma is_idle_iff:
  "is_idle p \<longleftrightarrow> \<not> is_active p \<and> \<not> is_popped p \<and> \<not> is_clamp p \<and> \<not> is_limit_exit p"
  by (cases p) auto

lemma idle_holds_nothing: "is_idle p \<Longrightarrow> held_url p = None"
  by (cases p) auto

lemma step_sets_stop:
  assumes "step cfg t ev s = Some s'" and "stop s'" and "\<not> stop s"
  shows "pcs s ! t = SetStopIdle \<or> pcs s ! t = SetStopLimit"
proof -
  note ts = step_thread [OF assms(1)]
  show ?thesis
    using ts assms(2,3)
    by (cases "pcs s ! t") (auto simp: Let_def split: if_splits list.splits option.splits)
qed

lemma idle_step:
  assumes "step cfg t ev s = Some s'" and "is_idle (pcs s ! t)"
    and "frontier s = []" and "active_workers s = 0"
  shows "is_idle (pcs s' ! t) \<and> idle_rank (pcs s' ! t) < idle_rank (pcs s ! t)
     \<and> frontier s' = [] \<and> visited s' = visited s \<and> queued s' = queued s
     \<and> pages_downloaded s' = pages_downloaded s \<and> active_workers s' = 0
     \<and> ledger s' = ledger s \<and> files s' = files s
     \<and> pcs s' = (pcs s)[t := pcs s' ! t]"
proof -
  note ts = step_thread [OF assms(1)]
  show ?thesis
    using ts assms(2-4)
    by (cases "pcs s ! t") (auto simp: goto_def split: if_splits list.splits)
qed

lemma inv_unseeded_step:
  assumes "inv_unseeded rows stored s" and "step cfg t ev s = Some s'"
  shows "inv_unseeded rows stored s'"
proof -
  note ts = step_thread [OF assms(2)]
  have idle: "\<And>i. i < length (pcs s) \<Longrightarrow> is_idle (pcs s ! i)"
    using assms(1) by (simp add: inv_unseeded_def)
  have fr: "frontier s = []" and ac: "active_workers s = 0"
    using assms(1) by (simp_all add: inv_unseeded_def)
  note eff = idle_step [OF assms(2) idle [OF ts(1)] fr ac]
  have "is_idle (pcs s' ! i)" if "i < length (pcs s')" for i
  proof (cases "i = t")
    case True
    with eff show ?thesis by simp
  next
    case False
    with step_other [OF assms(2)] idle [of i] that step_length [OF assms(2)] show ?thesis by simp
  qed
  with eff assms(1) show ?thesis by (simp add: inv_unseeded_def)
qed

lemma sum_list_update_less:
  "t < length xs \<Longrightarrow> f y < f (xs ! t) \<Longrightarrow>
   sum_list (map f (xs[t := y])) < (sum_list (map f xs) :: nat)"
proof (induction xs arbitrary: t)
  case Nil
  then show ?case by simp
next
  case (Cons x xs)
  then show ?case by (cases t) auto
qed

lemma rank_sum_bound: "rank_sum s \<le> 4 * length (pcs s)"
proof -
  have r: "idle_rank p \<le> 4" for p by (cases p) auto
  have "sum_list (map idle_rank xs) \<le> 4 * length xs" for xs
  proof (induction xs)
    case Nil
    show ?case by simp
  next
    case (Cons x xs)
    with r [of x] show ?case by simp
  qed
  then show ?thesis by (simp add: rank_sum_def)
qed

lemma unseeded_progress:
  assumes "inv_unseeded rows stored s" and "i < length (pcs s)" and "pcs s ! i \<noteq> Done"
  shows "\<exists>t. step cfg t ev s \<noteq> None"
proof (cases "queue_mutex_free s")
  case True
  have "is_idle (pcs s ! i)" using assms(1,2) by (simp add: inv_unseeded_def)
  with assms(2,3) True have "step cfg i ev s \<noteq> None"
    by (cases "pcs s ! i") (auto simp: step_def split: list.splits)
  then show ?thesis by blast
next
  case False
  then obtain j where j: "j < length (pcs s)" "holds_queue_mutex (pcs s ! j)"
    by (auto simp: queue_mutex_free_iff)
  have "is_idle (pcs s ! j)" using assms(1) j(1) by (simp add: inv_unseeded_def)
  with j have "step cfg j ev s \<noteq> None"
    by (cases "pcs s ! j") (auto simp: step_def)
  then show ?thesis by blast
qed

lemma inv_unseeded_init:
  assumes "\<not> is_allowed_domain cfg (strip_fragment (start_url cfg))"
  shows "inv_unseeded rows stored (init_state cfg rows stored)"
  using assms by (simp add: inv_unseeded_def frontier_init enqueue_candidate_def Let_def)

lemma inv_unseeded_run:
  "inv_unseeded rows stored s \<Longrightarrow> inv_unseeded rows stored (run_schedule cfg sched s)"
proof (induction sched arbitrary: s)
  case Nil
  then show ?case by simp
next
  case (Cons e sched)
  obtain t ev where e: "e = (t, ev)" by (cases e)
  show ?case
  proof (cases "step cfg t ev s")
    case None
    with Cons e show ?thesis by simp
  next
    case (Some s')
    with Cons.prems have "inv_unseeded rows stored s'" by (auto intro: inv_unseeded_step)
    with Cons.IH Some e show ?thesis by simp
  qed
qed

lemma held_unique:
  assumes "inv_token s" and "i < length (pcs s)" and "j < length (pcs s)"
    and "held_url (pcs s ! i) = Some u" and "held_url (pcs s ! j) = Some u"
  shows "i = j"
proof (rule ccontr)
  assume ne: "i \<noteq> j"
  let ?P = "\<lambda>p. held_url p = Some u"
  have tok: "int (count_list (frontier s) u) + int (count_pcs ?P s) = of_bool (u \<in> queued s)"
    using assms(1) by (simp add: inv_token_def)
  have less: "int (count_pcs ?P (goto s i Done)) = int (count_pcs ?P s) - 1"
    using count_pcs_goto [OF assms(2), of ?P Done] assms(4) by simp
  have "pcs (goto s i Done) ! j = pcs s ! j"
    using pcs_goto_nth [OF assms(3), of i Done] ne by simp
  with assms(5) have "?P (pcs (goto s i Done) ! j)" by simp
  moreover have "j < length (pcs (goto s i Done))" using assms(3) by simp
  ultimately have "1 \<le> int (count_pcs ?P (goto s i Done))" by (rule count_pcs_pos [rotated])
  with less have "2 \<le> int (count_pcs ?P s)" by simp
  with tok show False by (simp add: of_bool_def split: if_splits)
qed













section \<open>Resolving links\<close>

text \<open>
  Claim C6. For a base URL that parses and an href that begins with a single \<open>/\<close>,
  resolving should give scheme, \<open>://\<close>, host and the href with its fragment stripped, and
  for a relative href the fragment should be stripped as well. The branches of
  \<open>make_absolute\<close> for \<open>http://\<close>, \<open>https://\<close> and \<open>//\<close> call \<open>strip_fragment\<close>; the two
  last branches do not, and the fragment stays in the result.
\<close>

theorem make_absolute_keeps_fragment:
  "parse_url ''https://h/a/b'' = Some \<lparr>scheme = ''https'', host = ''h'', path = ''/a/b''\<rparr>
   \<and> make_absolute ''https://h/a/b'' ''/x#f'' = ''https://h/x#f''
   \<and> ''https'' @ ''://'' @ ''h'' @ strip_fragment ''/x#f'' = ''https://h/x''
   \<and> make_absolute ''https://h/a/b'' ''c.html#f'' = ''https://h/a/c.html#f''
   \<and> make_absolute ''https://h/a/b'' ''https://h/x#f'' = ''https://h/x''
   \<and> make_absolute ''https://h/a/b'' ''//h/x#f'' = ''https://h/x''"
  by code_simp

section \<open>Filtering by extension\<close>

text \<open>
  Claim C8. For a URL that passes the fragment-strip and allowed-domain checks,
  \<open>should_enqueue\<close> returns false when the extension is non-empty and not allowed, true
  when it is non-empty and allowed, and true when it is empty, whatever
  \<open>query_indicates_download\<close> says: the answer is exactly "the extension is empty or
  allowed".
\<close>

theorem should_enqueue_extension_gate:
  assumes "strip_fragment url \<noteq> []"
    and "is_allowed_domain cfg (strip_fragment url)"
  shows "should_enqueue cfg url =
           (extension_from_url url = [] \<or> extension_from_url url \<in> allowed_extensions cfg)"
  using assms by (auto simp: should_enqueue_def Let_def extension_from_url_strip)

theorem should_enqueue_extension_gate_witness:
  "query_indicates_download ''https://www.bgsu.edu/report?download=1''
   \<and> should_enqueue default_config ''https://www.bgsu.edu/report?download=1''
   \<and> should_enqueue default_config ''https://www.bgsu.edu/a/plan.PDF#p2''
   \<and> \<not> should_enqueue default_config ''https://bgsu.edu/setup.exe''"
proof -
  have q: "query_indicates_download ''https://www.bgsu.edu/report?download=1''"
    by code_simp
  have a1: "strip_fragment ''https://www.bgsu.edu/report?download=1'' \<noteq> []"
    and a2: "is_allowed_domain default_config
               (strip_fragment ''https://www.bgsu.edu/report?download=1'')"
    and a3: "extension_from_url ''https://www.bgsu.edu/report?download=1'' = []"
    by code_simp+
  have b1: "strip_fragment ''https://www.bgsu.edu/a/plan.PDF#p2'' \<noteq> []"
    and b2: "is_allowed_domain default_config (strip_fragment ''https://www.bgsu.edu/a/plan.PDF#p2'')"
    and b3: "extension_from_url ''https://www.bgsu.edu/a/plan.PDF#p2'' \<in> allowed_extensions default_config"
    by code_simp+
  have c1: "strip_fragment ''https://bgsu.edu/setup.exe'' \<noteq> []"
    and c2: "is_allowed_domain default_config (strip_fragment ''https://bgsu.edu/setup.exe'')"
    and c3: "extension_from_url ''https://bgsu.edu/setup.exe'' \<noteq> []"
    and c4: "extension_from_url ''https://bgsu.edu/setup.exe'' \<notin> allowed_extensions default_config"
    by code_simp+
  show ?thesis
    using q should_enqueue_extension_gate [OF a1 a2] a3
      should_enqueue_extension_gate [OF b1 b2] b3
      should_enqueue_extension_gate [OF c1 c2] c3 c4
    by simp
qed

section \<open>Claims about the parallel crawl\<close>

text \<open>
  Claim C1, as stated: in every run no URL appears in more than one row of the metadata
  ledger. The constructor keeps a ledger file that exists already and \<open>process_url\<close>
  appends to it, while \<open>visited_\<close> starts empty: a second run over the output of a first
  run fetches the seed again and appends a second row for it.
\<close>

theorem ledger_rows_distinct_counterexample:
  "ledger stored_state
     = [(''https://ex.test/a'', Join (Join (Path ''out'') ''html'') ''html__ex.test_a.html'',
         ''text/html; charset=utf-8'')]
   \<and> reachable site_config second_run_state
   \<and> map fst (ledger second_run_state) = [''https://ex.test/a'', ''https://ex.test/a'']
   \<and> \<not> distinct (map fst (ledger second_run_state))"
proof -
  have r: "reachable site_config second_run_state"
    unfolding second_run_state_def by (rule reachable_run [OF reachable.reach_init])
  have e: "ledger stored_state
     = [(''https://ex.test/a'', Join (Join (Path ''out'') ''html'') ''html__ex.test_a.html'',
         ''text/html; charset=utf-8'')]
   \<and> map fst (ledger second_run_state) = [''https://ex.test/a'', ''https://ex.test/a'']
   \<and> \<not> distinct (map fst (ledger second_run_state))"
    by code_simp
  from r e show ?thesis by blast
qed

text \<open>
  Claim C1, amended. In every run, with any number of workers, every URL offered to the
  frontier is claimed and processed by at most one worker, and consequently no URL
  appears in more than one of the rows the run appends to the ledger; the rows the
  ledger had before the run are kept in front of them. Along any schedule, from any
  earlier ledger and files, the list of URLs for which \<open>mark_visited\<close> returned true has
  no repetition, the ledger begins with its earlier rows, and the URL column of the rows
  after them has no repetition. The two mechanisms: \<open>enqueue_url\<close> leaves the frontier
  and the sets alone for a URL already in \<open>visited_\<close> or \<open>queued_\<close>, and \<open>mark_visited\<close>
  lets the worker go on to \<open>process_url\<close> exactly when the URL was not yet in
  \<open>visited_\<close>.
\<close>

theorem no_url_processed_twice:
  "distinct (claims cfg sched (init_state cfg rows stored))
   \<and> take (length rows) (ledger (run_schedule cfg sched (init_state cfg rows stored))) = rows
   \<and> distinct (map fst (drop (length rows)
                  (ledger (run_schedule cfg sched (init_state cfg rows stored)))))
   \<and> (t < length (pcs s) \<and> pcs s ! t = Links current (link # rest) \<and> visited_mutex_free s
        \<and> should_enqueue cfg link \<and> enqueue_candidate cfg link = Some normalized
        \<and> (normalized \<in> visited s \<or> normalized \<in> queued s)
      \<longrightarrow> step cfg t ev s = Some (goto s t (Links current rest)))
   \<and> (pcs s ! t = MarkVisited url \<and> step cfg t ev s = Some s'
      \<longrightarrow> (pcs s' ! t = CheckLimit url) = (url \<notin> visited s) \<and> url \<in> visited s')"
proof (intro conjI impI)
  show "distinct (claims cfg sched (init_state cfg rows stored))" using claims_fresh by blast
  have i: "inv_ledger (length rows) (init_state cfg rows stored)" by (rule inv_ledger_init)
  from run_ledger_prefix [OF i, of cfg sched]
  show "take (length rows) (ledger (run_schedule cfg sched (init_state cfg rows stored))) = rows"
    by simp
  have "inv_ledger (length rows) (run_schedule cfg sched (init_state cfg rows stored))"
    by (rule inv_ledger_run [OF i])
  then show "distinct (map fst (drop (length rows)
                  (ledger (run_schedule cfg sched (init_state cfg rows stored)))))"
    by (rule inv_ledger_distinct)
next
  assume "t < length (pcs s) \<and> pcs s ! t = Links current (link # rest) \<and> visited_mutex_free s
        \<and> should_enqueue cfg link \<and> enqueue_candidate cfg link = Some normalized
        \<and> (normalized \<in> visited s \<or> normalized \<in> queued s)"
  then show "step cfg t ev s = Some (goto s t (Links current rest))"
    by (auto simp: step_def)
next
  assume a: "pcs s ! t = MarkVisited url \<and> step cfg t ev s = Some s'"
  then show "(pcs s' ! t = CheckLimit url) = (url \<notin> visited s)" and "url \<in> visited s'"
    using step_mark_visited(1,2) [of cfg t ev s s' url] by simp_all
qed

theorem no_url_processed_twice_witness:
  "claims site_config dedup_schedule (init_state site_config (ledger stored_state) [])
     = [''https://ex.test/a'', ''https://ex.test/x'']
   \<and> distinct (claims site_config dedup_schedule (init_state site_config (ledger stored_state) []))
   \<and> map fst (ledger (run_schedule site_config dedup_schedule
                        (init_state site_config (ledger stored_state) [])))
       = [''https://ex.test/a'', ''https://ex.test/a'', ''https://ex.test/x'']
   \<and> length (ledger stored_state) = 1
   \<and> take (length (ledger stored_state))
        (ledger (run_schedule site_config dedup_schedule
                   (init_state site_config (ledger stored_state) [])))
       = ledger stored_state
   \<and> distinct (map fst (drop (length (ledger stored_state))
        (ledger (run_schedule site_config dedup_schedule
                   (init_state site_config (ledger stored_state) [])))))
   \<and> ''https://ex.test/x'' \<in> queued dup_state
   \<and> step site_config 0 twice_linked_page dup_state = Some (goto dup_state 0 (Links 1 []))
   \<and> ''https://ex.test/a'' \<notin> visited claimed_state
   \<and> pcs (run_schedule site_config (solo 0 1 plain_page) claimed_state) ! 0
        = CheckLimit ''https://ex.test/a''
   \<and> ''https://ex.test/a'' \<in> visited (run_schedule site_config (solo 0 1 plain_page) claimed_state)"
proof -
  have c: "claims site_config dedup_schedule (init_state site_config (ledger stored_state) [])
     = [''https://ex.test/a'', ''https://ex.test/x'']"
    and m: "map fst (ledger (run_schedule site_config dedup_schedule
                        (init_state site_config (ledger stored_state) [])))
       = [''https://ex.test/a'', ''https://ex.test/a'', ''https://ex.test/x'']"
    and n: "length (ledger stored_state) = 1"
    by code_simp+
  have h3: "0 < length (pcs dup_state)
        \<and> pcs dup_state ! 0 = Links 1 (''https://ex.test/x#top'' # []) \<and> visited_mutex_free dup_state
        \<and> should_enqueue site_config ''https://ex.test/x#top''
        \<and> enqueue_candidate site_config ''https://ex.test/x#top'' = Some ''https://ex.test/x''
        \<and> (''https://ex.test/x'' \<in> visited dup_state \<or> ''https://ex.test/x'' \<in> queued dup_state)"
    by code_simp
  have q: "''https://ex.test/x'' \<in> queued dup_state" by code_simp
  have h4: "pcs claimed_state ! 0 = MarkVisited ''https://ex.test/a''
      \<and> step site_config 0 plain_page claimed_state
          = Some (run_schedule site_config (solo 0 1 plain_page) claimed_state)"
    by code_simp
  have nv: "''https://ex.test/a'' \<notin> visited claimed_state" by code_simp
  note T3 = no_url_processed_twice
    [where cfg = site_config and sched = dedup_schedule and rows = "ledger stored_state"
       and stored = "[]" and t = 0 and s = dup_state
       and current = 1 and link = "''https://ex.test/x#top''" and rest = "[]"
       and normalized = "''https://ex.test/x''" and ev = twice_linked_page]
  note T4 = no_url_processed_twice
    [where cfg = site_config and sched = dedup_schedule and rows = "ledger stored_state"
       and stored = "[]" and t = 0 and s = claimed_state
       and url = "''https://ex.test/a''" and ev = plain_page
       and s' = "run_schedule site_config (solo 0 1 plain_page) claimed_state"]
  from T3
  have d: "distinct (claims site_config dedup_schedule (init_state site_config (ledger stored_state) []))"
    and tk: "take (length (ledger stored_state))
        (ledger (run_schedule site_config dedup_schedule
                   (init_state site_config (ledger stored_state) [])))
       = ledger stored_state"
    and dl: "distinct (map fst (drop (length (ledger stored_state))
        (ledger (run_schedule site_config dedup_schedule
                   (init_state site_config (ledger stored_state) [])))))"
    by blast+
  from T3 h3 have r3: "step site_config 0 twice_linked_page dup_state = Some (goto dup_state 0 (Links 1 []))"
    by blast
  from T4 h4 nv
  have r4: "pcs (run_schedule site_config (solo 0 1 plain_page) claimed_state) ! 0
        = CheckLimit ''https://ex.test/a''"
    and r5: "''https://ex.test/a'' \<in> visited (run_schedule site_config (solo 0 1 plain_page) claimed_state)"
    by blast+
  show ?thesis by (intro conjI c d m n tk dl q r3 nv r4 r5)
qed

text \<open>
  Claim C2. Without a page limit (\<open>max_pages\<close> negative), the stop flag is set only by a
  worker that holds the frontier lock and has seen the frontier empty and
  \<open>active_workers\<close> equal to 0, and at that moment no other worker can still offer work:
  every worker is outside \<open>process_url\<close> and holds no URL. Hence whenever the flag is set
  the crawler is quiescent: the frontier is empty, \<open>active_workers\<close> is 0, and no offered
  URL is left unclaimed (\<open>queued_\<close> is empty).
\<close>

theorem stop_only_at_quiescence:
  assumes "reachable cfg s" and "sint (max_pages cfg) < 0"
  shows "(stop s \<longrightarrow>
            frontier s = [] \<and> active_workers s = 0 \<and> queued s = {}
            \<and> (\<forall>i<length (pcs s). is_idle (pcs s ! i)))
     \<and> (\<forall>t ev s'. \<not> stop s \<and> step cfg t ev s = Some s' \<and> stop s' \<longrightarrow>
            pcs s ! t = SetStopIdle \<and> holds_queue_mutex (pcs s ! t)
            \<and> frontier s = [] \<and> active_workers s = 0
            \<and> (\<forall>i<length (pcs s). is_idle (pcs s ! i)))"
proof -
  have inv: "inv_active s" "inv_token s" "inv_mutex s" "inv_empty s" "inv_idle_stop s"
      "inv_nolimit cfg s" "inv_stopped cfg s"
    using reachable_inv_all [OF assms(1)] by (simp_all add: inv_all_def)
  have nolimit: "\<not> is_limit_exit (pcs s ! i)" if "i < length (pcs s)" for i
    using inv(6) assms(2) that by (simp add: inv_nolimit_def)
  have noclamp: "\<not> is_clamp (pcs s ! i)" if "i < length (pcs s)" for i
    using inv(1) that by (simp add: inv_active_def)
  have quiet: "frontier s = [] \<and> active_workers s = 0 \<and> queued s = {}
            \<and> (\<forall>i<length (pcs s). is_idle (pcs s ! i))"
    if fr: "frontier s = []" and ac: "active_workers s = 0"
      and np: "\<And>i. i < length (pcs s) \<Longrightarrow> \<not> is_popped (pcs s ! i)"
  proof -
    have idle: "is_idle (pcs s ! i)" if "i < length (pcs s)" for i
      using that np [OF that] nolimit [OF that] noclamp [OF that] active_zero [OF inv(1) ac that]
      by (simp add: is_idle_iff)
    have "queued s = {}"
    proof (rule ccontr)
      assume "queued s \<noteq> {}"
      then obtain u where "u \<in> queued s" by blast
      from queued_cases [OF inv(2) this] fr
      obtain i where "i < length (pcs s)" "held_url (pcs s ! i) = Some u" by auto
      with idle [of i] idle_holds_nothing [of "pcs s ! i"] show False by simp
    qed
    with fr ac idle show ?thesis by simp
  qed
  have part1: "stop s \<longrightarrow>
            frontier s = [] \<and> active_workers s = 0 \<and> queued s = {}
            \<and> (\<forall>i<length (pcs s). is_idle (pcs s ! i))"
  proof
    assume "stop s"
    with inv(7) assms(2)
    have "frontier s = []" "active_workers s = 0" "\<And>i. i < length (pcs s) \<Longrightarrow> \<not> is_popped (pcs s ! i)"
      by (simp_all add: inv_stopped_def)
    then show "frontier s = [] \<and> active_workers s = 0 \<and> queued s = {}
            \<and> (\<forall>i<length (pcs s). is_idle (pcs s ! i))"
      by (rule quiet)
  qed
  have part2: "\<forall>t ev s'. \<not> stop s \<and> step cfg t ev s = Some s' \<and> stop s' \<longrightarrow>
            pcs s ! t = SetStopIdle \<and> holds_queue_mutex (pcs s ! t)
            \<and> frontier s = [] \<and> active_workers s = 0
            \<and> (\<forall>i<length (pcs s). is_idle (pcs s ! i))"
  proof (intro allI impI)
    fix t ev s'
    assume a: "\<not> stop s \<and> step cfg t ev s = Some s' \<and> stop s'"
    then have st: "step cfg t ev s = Some s'" by simp
    note ts = step_thread [OF st]
    from step_sets_stop [OF st] a nolimit [OF ts(1)]
    have at: "pcs s ! t = SetStopIdle" by auto
    have fr: "frontier s = []" using inv(4) ts(1) at by (auto simp: inv_empty_def)
    have ac: "active_workers s = 0" using inv(5) ts(1) at by (auto simp: inv_idle_stop_def)
    have np: "\<not> is_popped (pcs s ! i)" if i: "i < length (pcs s)" for i
    proof
      assume p: "is_popped (pcs s ! i)"
      then have "holds_queue_mutex (pcs s ! i)" by (rule is_popped_holds)
      moreover have "holds_queue_mutex (pcs s ! t)" using at by simp
      ultimately have "i = t" using inv(3) i ts(1) by (auto simp: inv_mutex_def)
      with p at show False by simp
    qed
    from quiet [OF fr ac np] at
    show "pcs s ! t = SetStopIdle \<and> holds_queue_mutex (pcs s ! t)
            \<and> frontier s = [] \<and> active_workers s = 0
            \<and> (\<forall>i<length (pcs s). is_idle (pcs s ! i))"
      by simp
  qed
  show ?thesis by (intro conjI part1 part2)
qed

theorem stop_only_at_quiescence_witness:
  "sint (max_pages site_config) < 0
   \<and> stop stopped_state \<and> frontier stopped_state = [] \<and> active_workers stopped_state = 0
   \<and> queued stopped_state = {}
   \<and> \<not> stop last_look_state
   \<and> step site_config 0 plain_page last_look_state = Some stopped_state
   \<and> pcs last_look_state ! 0 = SetStopIdle
   \<and> frontier last_look_state = [] \<and> active_workers last_look_state = 0"
proof -
  have neg: "sint (max_pages site_config) < 0" by code_simp
  have r1: "reachable site_config stopped_state"
    unfolding stopped_state_def by (rule reachable_run [OF reachable.reach_init])
  have r2: "reachable site_config last_look_state"
    unfolding last_look_state_def by (rule reachable_run [OF reachable.reach_init])
  have st: "stop stopped_state" by code_simp
  have h: "\<not> stop last_look_state \<and> step site_config 0 plain_page last_look_state = Some stopped_state
      \<and> stop stopped_state"
    by code_simp
  from stop_only_at_quiescence [OF r1 neg] st
  have a: "frontier stopped_state = [] \<and> active_workers stopped_state = 0 \<and> queued stopped_state = {}"
    by blast
  from stop_only_at_quiescence [OF r2 neg] h
  have b: "pcs last_look_state ! 0 = SetStopIdle \<and> frontier last_look_state = []
      \<and> active_workers last_look_state = 0"
    by blast
  from neg st h a b show ?thesis by blast
qed

text \<open>
  Claim C3. For every run with \<open>max_pages\<close> at least 0 and \<open>N\<close> workers, the value of
  \<open>pages_downloaded\<close> never exceeds \<open>max_pages + N - 1\<close>, so neither does its final
  value. The team has at least one worker.
\<close>

theorem pages_downloaded_bound:
  assumes "reachable cfg s" and "0 \<le> sint (max_pages cfg)" and "0 < sint (threads cfg)"
  shows "sint (pages_downloaded s) \<le> sint (max_pages cfg) + sint (threads cfg) - 1"
proof -
  have "inv_limit cfg s" by (rule reachable_inv_limit [OF assms])
  moreover have "inv_len cfg s" using reachable_inv_all [OF assms(1)] by (simp add: inv_all_def)
  ultimately show ?thesis using assms(3) by (simp add: inv_limit_def inv_len_def)
qed

theorem pages_downloaded_bound_witness:
  "0 \<le> sint (max_pages limited_config) \<and> 0 < sint (threads limited_config)
   \<and> sint (max_pages limited_config) = 2 \<and> sint (threads limited_config) = 3
   \<and> sint (pages_downloaded overshoot_state) = 3
   \<and> sint (pages_downloaded overshoot_state)
       \<le> sint (max_pages limited_config) + sint (threads limited_config) - 1"
proof -
  have h1: "0 \<le> sint (max_pages limited_config)" and h2: "0 < sint (threads limited_config)"
    and v1: "sint (max_pages limited_config) = 2" and v2: "sint (threads limited_config) = 3"
    and v3: "sint (pages_downloaded overshoot_state) = 3"
    by code_simp+
  have r: "reachable limited_config overshoot_state"
    unfolding overshoot_state_def by (rule reachable_run [OF reachable.reach_init])
  from pages_downloaded_bound [OF r h1 h2] h1 h2 v1 v2 v3 show ?thesis by blast
qed

text \<open>
  Claim C4, as stated: between any two operations on the frontier, \<open>queued_\<close> equals the
  set of elements of the frontier, and no state in which a URL has left the frontier but
  is still in \<open>queued_\<close> and not in \<open>visited_\<close> can be seen by another operation. The pop
  runs under \<open>queue_mutex_\<close> and \<open>mark_visited\<close> later under \<open>visited_mutex_\<close>: after worker
  0 has popped the seed and before it marks it, worker 1 takes the queue lock and finds
  the frontier empty while the seed is in \<open>queued_\<close> and not in \<open>visited_\<close>.
\<close>

theorem queued_equals_frontier_counterexample:
  "reachable site_config race_state
   \<and> pcs race_state = [MarkVisited ''https://ex.test/a'', EmptyQ]
   \<and> frontier race_state = []
   \<and> queued race_state = {''https://ex.test/a''}
   \<and> visited race_state = {}
   \<and> queued race_state \<noteq> set (frontier race_state)"
proof -
  have r: "reachable site_config race_state"
    unfolding race_state_def by (rule reachable_run [OF reachable.reach_init])
  have e: "pcs race_state = [MarkVisited ''https://ex.test/a'', EmptyQ]
   \<and> frontier race_state = []
   \<and> queued race_state = {''https://ex.test/a''}
   \<and> visited race_state = {}
   \<and> queued race_state \<noteq> set (frontier race_state)"
    by code_simp
  from r e show ?thesis by blast
qed

text \<open>
  Claim C4, amended. In every reachable state the frontier has no repetition and all its
  elements are in \<open>queued_\<close>; \<open>queued_\<close> and \<open>visited_\<close> are disjoint; a URL of \<open>queued_\<close> that
  is not in the frontier is held by exactly one worker, one that has popped it and not
  yet marked it visited, or that has inserted it and not yet pushed it, and a URL so
  held is in \<open>queued_\<close> and not in the frontier; when no worker holds a URL, \<open>queued_\<close> equals the set
  of elements of the frontier. The move from \<open>queued_\<close> to \<open>visited_\<close> is one step of
  \<open>mark_visited\<close> under \<open>visited_mutex_\<close>, the lock \<open>enqueue_url\<close> tests the two sets
  under: it always succeeds, inserts the URL into \<open>visited_\<close>, erases it from \<open>queued_\<close>
  and leaves the frontier alone.
\<close>

theorem queued_covers_frontier_and_claims:
  assumes "reachable cfg s"
  shows "set (frontier s) \<subseteq> queued s
     \<and> distinct (frontier s)
     \<and> queued s \<inter> visited s = {}
     \<and> (\<forall>u\<in>queued s. u \<in> set (frontier s) \<or> (\<exists>i<length (pcs s). held_url (pcs s ! i) = Some u))
     \<and> (\<forall>u\<in>queued s. u \<notin> set (frontier s) \<longrightarrow>
           (\<exists>!i. i < length (pcs s) \<and> held_url (pcs s ! i) = Some u))
     \<and> (\<forall>i<length (pcs s). \<forall>u. held_url (pcs s ! i) = Some u \<longrightarrow> u \<in> queued s \<and> u \<notin> set (frontier s))
     \<and> ((\<forall>i<length (pcs s). held_url (pcs s ! i) = None) \<longrightarrow> queued s = set (frontier s))
     \<and> (\<forall>t ev u s'. pcs s ! t = MarkVisited u \<and> step cfg t ev s = Some s' \<longrightarrow>
           u \<in> queued s \<and> u \<notin> visited s \<and> pcs s' ! t = CheckLimit u
           \<and> visited s' = insert u (visited s) \<and> queued s' = queued s - {u}
           \<and> frontier s' = frontier s)"
proof -
  have inv: "inv_token s" "inv_disjoint s"
    using reachable_inv_all [OF assms] by (simp_all add: inv_all_def)
  have p1: "set (frontier s) \<subseteq> queued s" and p2: "distinct (frontier s)"
    using frontier_in_queued [OF inv(1)] by simp_all
  have p3: "queued s \<inter> visited s = {}" using inv(2) by (simp add: inv_disjoint_def)
  have p4: "\<forall>u\<in>queued s. u \<in> set (frontier s) \<or> (\<exists>i<length (pcs s). held_url (pcs s ! i) = Some u)"
    using queued_cases [OF inv(1)] by blast
  have p4u: "\<forall>u\<in>queued s. u \<notin> set (frontier s) \<longrightarrow>
           (\<exists>!i. i < length (pcs s) \<and> held_url (pcs s ! i) = Some u)"
  proof (intro ballI impI)
    fix u assume "u \<in> queued s" and "u \<notin> set (frontier s)"
    with p4 obtain i where i: "i < length (pcs s)" "held_url (pcs s ! i) = Some u" by blast
    show "\<exists>!i. i < length (pcs s) \<and> held_url (pcs s ! i) = Some u"
    proof (rule ex1I [of _ i])
      from i show "i < length (pcs s) \<and> held_url (pcs s ! i) = Some u" by simp
    next
      fix j assume "j < length (pcs s) \<and> held_url (pcs s ! j) = Some u"
      then show "j = i" using held_unique [OF inv(1) _ i(1) _ i(2), of j] by simp
    qed
  qed
  have p5: "\<forall>i<length (pcs s). \<forall>u. held_url (pcs s ! i) = Some u \<longrightarrow> u \<in> queued s \<and> u \<notin> set (frontier s)"
    using held_in_queued [OF inv(1)] by blast
  have p6: "(\<forall>i<length (pcs s). held_url (pcs s ! i) = None) \<longrightarrow> queued s = set (frontier s)"
  proof
    assume none: "\<forall>i<length (pcs s). held_url (pcs s ! i) = None"
    have "queued s \<subseteq> set (frontier s)"
    proof
      fix u assume "u \<in> queued s"
      with p4 have "u \<in> set (frontier s) \<or> (\<exists>i<length (pcs s). held_url (pcs s ! i) = Some u)" by blast
      with none show "u \<in> set (frontier s)" by auto
    qed
    with p1 show "queued s = set (frontier s)" by blast
  qed
  have p7: "\<forall>t ev u s'. pcs s ! t = MarkVisited u \<and> step cfg t ev s = Some s' \<longrightarrow>
           u \<in> queued s \<and> u \<notin> visited s \<and> pcs s' ! t = CheckLimit u
           \<and> visited s' = insert u (visited s) \<and> queued s' = queued s - {u}
           \<and> frontier s' = frontier s"
  proof (intro allI impI)
    fix t ev u s'
    assume a: "pcs s ! t = MarkVisited u \<and> step cfg t ev s = Some s'"
    then have mv: "pcs s ! t = MarkVisited u" and st: "step cfg t ev s = Some s'" by simp_all
    note ts = step_thread [OF st]
    have q: "u \<in> queued s" using held_in_queued(1) [OF inv(1) ts(1)] mv by simp
    with p3 have nv: "u \<notin> visited s" by auto
    from ts mv nv q
    show "u \<in> queued s \<and> u \<notin> visited s \<and> pcs s' ! t = CheckLimit u
           \<and> visited s' = insert u (visited s) \<and> queued s' = queued s - {u}
           \<and> frontier s' = frontier s"
      by (auto simp: pcs_goto_nth split: if_splits)
  qed
  show ?thesis by (intro conjI p1 p2 p3 p4 p4u p5 p6 p7)
qed

theorem queued_covers_frontier_and_claims_witness:
  "set (frontier race_state) \<subseteq> queued race_state
   \<and> queued race_state \<inter> visited race_state = {}
   \<and> held_url (pcs race_state ! 0) = Some ''https://ex.test/a''
   \<and> ''https://ex.test/a'' \<in> queued race_state
   \<and> ''https://ex.test/a'' \<notin> set (frontier race_state)
   \<and> (\<exists>!i. i < length (pcs race_state) \<and> held_url (pcs race_state ! i) = Some ''https://ex.test/a'')
   \<and> visited (run_schedule site_config (solo 0 1 plain_page) race_state)
        = insert ''https://ex.test/a'' (visited race_state)
   \<and> queued (run_schedule site_config (solo 0 1 plain_page) race_state)
        = queued race_state - {''https://ex.test/a''}"
proof -
  have r: "reachable site_config race_state"
    unfolding race_state_def by (rule reachable_run [OF reachable.reach_init])
  have h: "0 < length (pcs race_state)"
    and k: "held_url (pcs race_state ! 0) = Some ''https://ex.test/a''"
    and m: "pcs race_state ! 0 = MarkVisited ''https://ex.test/a''
        \<and> step site_config 0 plain_page race_state
            = Some (run_schedule site_config (solo 0 1 plain_page) race_state)"
    by code_simp+
  note T = queued_covers_frontier_and_claims [OF r]
  from T have a: "set (frontier race_state) \<subseteq> queued race_state"
    and b: "queued race_state \<inter> visited race_state = {}"
    by blast+
  from T h k have c: "''https://ex.test/a'' \<in> queued race_state"
    and d: "''https://ex.test/a'' \<notin> set (frontier race_state)"
    by blast+
  from T c d
  have u: "\<exists>!i. i < length (pcs race_state) \<and> held_url (pcs race_state ! i) = Some ''https://ex.test/a''"
    by blast
  from T m
  have e: "visited (run_schedule site_config (solo 0 1 plain_page) race_state)
        = insert ''https://ex.test/a'' (visited race_state)"
    and f: "queued (run_schedule site_config (solo 0 1 plain_page) race_state)
        = queued race_state - {''https://ex.test/a''}"
    by blast+
  show ?thesis by (intro conjI a b k c d u e f)
qed




text \<open>
  Claim C7, as stated: a fetch whose transport fails or whose final HTTP status is not
  2xx returns an empty body and logs one line, and an empty body makes the worker abandon
  the URL. \<open>fetch_url\<close> never reads the HTTP status: a 404 response that libcurl delivers
  with \<open>CURLE_OK\<close> comes back with its body and no diagnostic, and the worker stores the
  error page and records it in the ledger.
\<close>

theorem non_2xx_fetch_counterexample:
  "missing_page =
     Performed \<lparr>curl_code = 0, error_text = ''No error'', status = 404,
                header_lines = [''Content-Type: text/html'' @ [CHR 0x0D, CHR 0x0A]],
                chunks = [''Not Found'']\<rparr>
   \<and> fetch_url ''https://ex.test/a'' missing_page
        = (\<lparr>body = ''Not Found'', content_type = ''text/html''\<rparr>, [])
   \<and> reachable site_config missing_state
   \<and> files missing_state = [(Join (Join (Path ''out'') ''html'') ''html__ex.test_a.html'', ''Not Found'')]
   \<and> ledger missing_state
        = [(''https://ex.test/a'', Join (Join (Path ''out'') ''html'') ''html__ex.test_a.html'', ''text/html'')]
   \<and> errlog missing_state = []"
proof -
  have r: "reachable site_config missing_state"
    unfolding missing_state_def by (rule reachable_run [OF reachable.reach_init])
  have e: "missing_page =
     Performed \<lparr>curl_code = 0, error_text = ''No error'', status = 404,
                header_lines = [''Content-Type: text/html'' @ [CHR 0x0D, CHR 0x0A]],
                chunks = [''Not Found'']\<rparr>
   \<and> fetch_url ''https://ex.test/a'' missing_page
        = (\<lparr>body = ''Not Found'', content_type = ''text/html''\<rparr>, [])"
    by (simp add: missing_page_def response_def header_callback_def starts_with_def
          to_lower_def tolower_char_def trim_def is_trim_space_def)
  have f: "files missing_state = [(Join (Join (Path ''out'') ''html'') ''html__ex.test_a.html'', ''Not Found'')]
   \<and> ledger missing_state
        = [(''https://ex.test/a'', Join (Join (Path ''out'') ''html'') ''html__ex.test_a.html'', ''text/html'')]
   \<and> errlog missing_state = []"
    by code_simp
  from r e f show ?thesis by blast
qed

text \<open>
  Claim C7, amended. For every transfer that \<open>curl_easy_perform\<close> reports as failed (a
  code other than \<open>CURLE_OK\<close>), \<open>fetch_url\<close> returns an empty body and logs one
  diagnostic line; for a transfer reported as \<open>CURLE_OK\<close> it returns the data received
  and logs nothing, whatever the HTTP status, which it does not consult. A fetch result
  with an empty body is treated as failure by the worker: it goes on to
  \<open>decrement_active\<close> and the next iteration, and nothing but the log changes, so nothing
  is persisted or recorded in the ledger.
\<close>

theorem failed_transfer_is_abandoned:
  "(curl_code tr \<noteq> 0 \<longrightarrow>
      body (fst (fetch_url url (Performed tr))) = [] \<and> length (snd (fetch_url url (Performed tr))) = 1)
   \<and> (curl_code tr = 0 \<longrightarrow>
      body (fst (fetch_url url (Performed tr))) = concat (chunks tr) \<and> snd (fetch_url url (Performed tr)) = [])
   \<and> fetch_url url (Performed (tr\<lparr>status := code\<rparr>)) = fetch_url url (Performed tr)
   \<and> (t < length (pcs s) \<and> pcs s ! t = Fetch url \<and> body (fst (fetch_url url ev)) = [] \<longrightarrow>
        step cfg t ev s = Some (goto (s\<lparr>errlog := errlog s @ snd (fetch_url url ev)\<rparr>) t (DecActive True)))
   \<and> (pcs s ! t = Fetch url \<and> body (fst (fetch_url url ev)) = [] \<and> step cfg t ev s = Some s' \<longrightarrow>
        pcs s' ! t = DecActive True \<and> ledger s' = ledger s \<and> files s' = files s
        \<and> pages_downloaded s' = pages_downloaded s \<and> frontier s' = frontier s
        \<and> queued s' = queued s \<and> visited s' = visited s)"
  by (auto simp: Let_def step_def pcs_goto_nth split: if_splits)

theorem failed_transfer_is_abandoned_witness:
  "curl_code timed_out \<noteq> 0
   \<and> body (fst (fetch_url ''https://ex.test/a'' (Performed timed_out))) = []
   \<and> length (snd (fetch_url ''https://ex.test/a'' (Performed timed_out))) = 1
   \<and> pcs fetch_state ! 0 = Fetch ''https://ex.test/a''
   \<and> step site_config 0 (Performed timed_out) fetch_state
        = Some (goto (fetch_state\<lparr>errlog := errlog fetch_state
                        @ snd (fetch_url ''https://ex.test/a'' (Performed timed_out))\<rparr>) 0
                  (DecActive True))"
proof -
  have h1: "curl_code timed_out \<noteq> 0" by (simp add: timed_out_def)
  note T = failed_transfer_is_abandoned
    [where tr = timed_out and url = "''https://ex.test/a''" and t = 0 and s = fetch_state
       and ev = "Performed timed_out" and cfg = site_config]
  from T h1 have a: "body (fst (fetch_url ''https://ex.test/a'' (Performed timed_out))) = []"
    and b: "length (snd (fetch_url ''https://ex.test/a'' (Performed timed_out))) = 1"
    by blast+
  have p: "pcs fetch_state ! 0 = Fetch ''https://ex.test/a''" and l: "0 < length (pcs fetch_state)"
    by code_simp+
  from T l p a
  have c: "step site_config 0 (Performed timed_out) fetch_state
        = Some (goto (fetch_state\<lparr>errlog := errlog fetch_state
                        @ snd (fetch_url ''https://ex.test/a'' (Performed timed_out))\<rparr>) 0
                  (DecActive True))"
    by blast
  show ?thesis by (intro conjI h1 a b p c)
qed

text \<open>
  Claim C9. In every reachable state \<open>active_workers\<close> is non-negative: it is the number
  of workers that have done their \<open>fetch_add\<close> and not yet their \<open>fetch_sub\<close>, so every
  decrement follows an increment by the same worker, and the branch of
  \<open>decrement_active\<close> that stores 0 is never reached: no worker is ever at it, and no
  step leads to it.
\<close>

theorem active_workers_never_negative:
  assumes "reachable cfg s"
  shows "0 \<le> sint (active_workers s)
     \<and> sint (active_workers s) = int (count_pcs is_active s)
     \<and> (\<forall>i<length (pcs s). \<not> is_clamp (pcs s ! i))
     \<and> (\<forall>t ev s'. step cfg t ev s = Some s' \<longrightarrow> \<not> is_clamp (pcs s' ! t))"
proof -
  have a: "inv_active s" using reachable_inv_all [OF assms] by (simp add: inv_all_def)
  have "\<not> is_clamp (pcs s' ! t)" if st: "step cfg t ev s = Some s'" for t ev s'
  proof -
    have "reachable cfg s'" using assms st by (rule reachable.reach_step)
    then have "inv_active s'" using reachable_inv_all by (simp add: inv_all_def)
    moreover have "t < length (pcs s')" using step_thread(1) [OF st] step_length [OF st] by simp
    ultimately show ?thesis by (simp add: inv_active_def)
  qed
  with a show ?thesis by (simp add: inv_active_def)
qed

theorem active_workers_never_negative_witness:
  "count_pcs is_active claimed_state = 1
   \<and> 0 \<le> sint (active_workers claimed_state)
   \<and> sint (active_workers claimed_state) = int (count_pcs is_active claimed_state)"
proof -
  have r: "reachable site_config claimed_state"
    unfolding claimed_state_def by (rule reachable_run [OF reachable.reach_init])
  have c: "count_pcs is_active claimed_state = 1" by code_simp
  from active_workers_never_negative [OF r] c show ?thesis by blast
qed

text \<open>
  Claim C10, as stated: \<open>enqueue_url\<close> rejects any URL, the seed included, that fails
  \<open>parse_url\<close> or whose host is not in \<open>allowed_domains\<close>, so a run with such a seed ends
  at once with \<open>pages_downloaded\<close> equal to 0, an empty frontier and an empty ledger body.
  The run ends at once and appends nothing, but the constructor keeps a ledger that
  exists already: over the output of an earlier run the ledger body is not empty when
  the run ends.
\<close>

theorem rejected_seed_ledger_counterexample:
  "parse_url (strip_fragment (start_url foreign_seed_config))
     = Some \<lparr>scheme = ''https'', host = ''example.org'', path = ''/''\<rparr>
   \<and> ''example.org'' \<notin> set (map to_lower (allowed_domains foreign_seed_config))
   \<and> \<not> is_allowed_domain foreign_seed_config (strip_fragment (start_url foreign_seed_config))
   \<and> reachable foreign_seed_config foreign_rerun_state
   \<and> pcs foreign_rerun_state = [Done, Done]
   \<and> pages_downloaded foreign_rerun_state = 0
   \<and> frontier foreign_rerun_state = []
   \<and> ledger foreign_rerun_state
        = [(''https://ex.test/a'', Join (Join (Path ''out'') ''html'') ''html__ex.test_a.html'', ''text/html; charset=utf-8'')]
   \<and> ledger foreign_rerun_state \<noteq> []"
proof -
  have r: "reachable foreign_seed_config foreign_rerun_state"
    unfolding foreign_rerun_state_def by (rule reachable_run [OF reachable.reach_init])
  have e: "parse_url (strip_fragment (start_url foreign_seed_config))
     = Some \<lparr>scheme = ''https'', host = ''example.org'', path = ''/''\<rparr>
   \<and> ''example.org'' \<notin> set (map to_lower (allowed_domains foreign_seed_config))
   \<and> \<not> is_allowed_domain foreign_seed_config (strip_fragment (start_url foreign_seed_config))"
    by code_simp
  have f: "pcs foreign_rerun_state = [Done, Done]
   \<and> pages_downloaded foreign_rerun_state = 0
   \<and> frontier foreign_rerun_state = []
   \<and> ledger foreign_rerun_state
        = [(''https://ex.test/a'', Join (Join (Path ''out'') ''html'') ''html__ex.test_a.html'', ''text/html; charset=utf-8'')]
   \<and> ledger foreign_rerun_state \<noteq> []"
    by code_simp
  from r e f show ?thesis by blast
qed

text \<open>
  Claim C10, amended. The seed is subject to the domain filter inside \<open>enqueue_url\<close>,
  which rejects any URL, the seed included, that fails \<open>parse_url\<close> or whose host is not
  in \<open>allowed_domains\<close>; the test is \<open>is_allowed_domain\<close> on the URL with its fragment
  stripped. For every configuration whose seed is rejected in this way, and whatever the
  ledger and the output directories held before, the run ends at once with
  \<open>pages_downloaded\<close> equal to 0, an empty frontier, and no row appended and no file
  written: the ledger is what it was before the run, so its body is empty when there was
  no ledger. Ending at once: every step lowers the sum of the workers' ranks, which
  starts at no more than 4 per worker, and as long as a worker has not left the loop
  some worker can take a step.
\<close>

theorem rejected_seed_run_ends_at_once:
  assumes "\<not> is_allowed_domain cfg (strip_fragment (start_url cfg))"
    and "s = run_schedule cfg sched (init_state cfg rows stored)"
  shows "enqueue_candidate cfg (start_url cfg) = None
     \<and> (\<not> is_allowed_domain cfg (strip_fragment url) \<longrightarrow> enqueue_candidate cfg url = None)
     \<and> frontier s = [] \<and> pages_downloaded s = 0 \<and> ledger s = rows \<and> files s = stored
     \<and> (rows = [] \<longrightarrow> ledger s = [])
     \<and> (\<forall>t e s'. step cfg t e s = Some s' \<longrightarrow> rank_sum s' < rank_sum s)
     \<and> rank_sum s \<le> 4 * nat (sint (threads cfg))
     \<and> ((\<exists>i<length (pcs s). pcs s ! i \<noteq> Done) \<longrightarrow> (\<exists>t. step cfg t ev s \<noteq> None))"
proof -
  have u: "inv_unseeded rows stored s"
    unfolding assms(2) by (rule inv_unseeded_run [OF inv_unseeded_init [OF assms(1)]])
  have re: "reachable cfg s"
    unfolding assms(2) by (rule reachable_run [OF reachable.reach_init])
  have len: "length (pcs s) = nat (sint (threads cfg))"
    using reachable_inv_all [OF re] by (simp add: inv_all_def inv_len_def)
  have c1: "enqueue_candidate cfg (start_url cfg) = None"
    using assms(1) by (simp add: enqueue_candidate_def Let_def)
  have c1': "\<not> is_allowed_domain cfg (strip_fragment url) \<longrightarrow> enqueue_candidate cfg url = None"
    by (simp add: enqueue_candidate_def Let_def)
  have c2: "frontier s = []" "pages_downloaded s = 0" "ledger s = rows" "files s = stored"
    using u by (simp_all add: inv_unseeded_def)
  have c2': "rows = [] \<longrightarrow> ledger s = []" using c2(3) by simp
  have c3: "\<forall>t e s'. step cfg t e s = Some s' \<longrightarrow> rank_sum s' < rank_sum s"
  proof (intro allI impI)
    fix t e s'
    assume st: "step cfg t e s = Some s'"
    note ts = step_thread [OF st]
    have "is_idle (pcs s ! t)" using u ts(1) by (simp add: inv_unseeded_def)
    from idle_step [OF st this] u
    have less: "idle_rank (pcs s' ! t) < idle_rank (pcs s ! t)"
      and upd: "pcs s' = (pcs s)[t := pcs s' ! t]"
      by (simp_all add: inv_unseeded_def)
    have "sum_list (map idle_rank ((pcs s)[t := pcs s' ! t])) < sum_list (map idle_rank (pcs s))"
      by (rule sum_list_update_less [OF ts(1) less])
    with upd show "rank_sum s' < rank_sum s" by (simp add: rank_sum_def)
  qed
  have c4: "rank_sum s \<le> 4 * nat (sint (threads cfg))"
    using rank_sum_bound [of s] len by simp
  have c5: "(\<exists>i<length (pcs s). pcs s ! i \<noteq> Done) \<longrightarrow> (\<exists>t. step cfg t ev s \<noteq> None)"
    using unseeded_progress [OF u] by blast
  show ?thesis by (intro conjI c1 c1' c2 c2' c3 c4 c5)
qed

theorem rejected_seed_run_ends_at_once_witness:
  "\<not> is_allowed_domain foreign_seed_config (strip_fragment (start_url foreign_seed_config))
   \<and> pcs foreign_seed_state = [Done, Done]
   \<and> stop foreign_seed_state
   \<and> frontier foreign_seed_state = [] \<and> pages_downloaded foreign_seed_state = 0
   \<and> ledger foreign_seed_state = [] \<and> files foreign_seed_state = []
   \<and> rank_sum foreign_seed_state \<le> 4 * nat (sint (threads foreign_seed_config))
   \<and> frontier foreign_rerun_state = [] \<and> pages_downloaded foreign_rerun_state = 0
   \<and> ledger foreign_rerun_state = ledger stored_state
   \<and> files foreign_rerun_state = files stored_state"
proof -
  have h: "\<not> is_allowed_domain foreign_seed_config (strip_fragment (start_url foreign_seed_config))"
    by code_simp
  have p: "pcs foreign_seed_state = [Done, Done]" and st: "stop foreign_seed_state"
    by code_simp+
  note T1 = rejected_seed_run_ends_at_once [OF h foreign_seed_state_def]
  note T2 = rejected_seed_run_ends_at_once [OF h foreign_rerun_state_def]
  from T1
  have a: "frontier foreign_seed_state = [] \<and> pages_downloaded foreign_seed_state = 0
   \<and> ledger foreign_seed_state = [] \<and> files foreign_seed_state = []
   \<and> rank_sum foreign_seed_state \<le> 4 * nat (sint (threads foreign_seed_config))"
    by blast
  from T2
  have b: "frontier foreign_rerun_state = [] \<and> pages_downloaded foreign_rerun_state = 0
   \<and> ledger foreign_rerun_state = ledger stored_state
   \<and> files foreign_rerun_state = files stored_state"
    by blast
  from h p st a b show ?thesis by blast
qed

end
